theory Spec2Isabelle
  imports Main
begin

section \<open>The graph of package hdgraph\<close>

text \<open>
  Nodes are Go \<open>int\<close>s. They are only compared, used as map keys and used as slice
  indices, never computed with, so they are modelled as \<open>int\<close>; the bounds check of
  every slice access is written out in \<open>sawTrue\<close> and \<open>sawFalse\<close>.

  A Go \<open>map[int]map[int]struct{}\<close> is a partial map from nodes to sets of nodes.
  Reading a missing key gives the nil map, which has no keys.
\<close>

type_synonym node = int

type_synonym adjacency = "node \<rightharpoonup> node set"

record Graph =
  out :: adjacency
  in' :: adjacency

datatype error = IndexOutOfRange | NilMapAssign

definition neighbours :: "adjacency \<Rightarrow> node \<Rightarrow> node set" where
  "neighbours m n = (case m n of None \<Rightarrow> {} | Some s \<Rightarrow> s)"

definition New :: Graph where
  "New = \<lparr>out = Map.empty, in' = Map.empty\<rparr>"

definition Add :: "Graph \<Rightarrow> node \<Rightarrow> Graph" where
  "Add g node =
     (case out g node of
        None \<Rightarrow> g\<lparr>out := (out g)(node \<mapsto> {}), in' := (in' g)(node \<mapsto> {})\<rparr>
      | Some _ \<Rightarrow> g)"

text \<open>
  \<open>Remove\<close> ranges over \<open>g.out[node]\<close> and deletes \<open>node\<close> from \<open>g.in[dst]\<close> for
  every key \<open>dst\<close>; \<open>delete\<close> on a nil map does nothing. The deletions touch different
  inner maps, so the order of the range does not matter and the loop is written as one
  update of the \<open>in\<close> mapping. After the loop the source deletes the key \<open>node\<close> from
  \<open>g.out\<close>, and from \<open>g.out\<close> only.
\<close>

definition Remove :: "Graph \<Rightarrow> node \<Rightarrow> Graph" where
  "Remove g node =
     (let outs = neighbours (out g) node;
          g1 = g\<lparr>in' := (\<lambda>dst. if dst \<in> outs
                                  then map_option (\<lambda>s. s - {node}) (in' g dst)
                                  else in' g dst)\<rparr>
      in g1\<lparr>out := (out g1)(node := None)\<rparr>)"

text \<open>
  \<open>Link\<close> assigns into the inner maps \<open>g.out[src]\<close> and \<open>g.in[dst]\<close>; assigning into a
  nil map panics in Go, so both lookups have an error branch.
\<close>

definition Link :: "Graph \<Rightarrow> node \<Rightarrow> node \<Rightarrow> error + Graph" where
  "Link g src dst =
     (let g1 = Add (Add g src) dst in
      case out g1 src of
        None \<Rightarrow> Inl NilMapAssign
      | Some s \<Rightarrow>
          (let g2 = g1\<lparr>out := (out g1)(src \<mapsto> insert dst s)\<rparr> in
           case in' g2 dst of
             None \<Rightarrow> Inl NilMapAssign
           | Some t \<Rightarrow> Inr (g2\<lparr>in' := (in' g2)(dst \<mapsto> insert src t)\<rparr>)))"

definition Unlink :: "Graph \<Rightarrow> node \<Rightarrow> node \<Rightarrow> Graph" where
  "Unlink g src dst =
     (let g1 = (case out g src of
                  Some s \<Rightarrow> g\<lparr>out := (out g)(src \<mapsto> s - {dst})\<rparr>
                | None \<Rightarrow> g)
      in case in' g1 dst of
           Some t \<Rightarrow> g1\<lparr>in' := (in' g1)(dst \<mapsto> t - {src})\<rparr>
         | None \<Rightarrow> g1)"

text \<open>A caller's sequence of mutations; it stops at the first panic.\<close>

datatype op = AddOp node | RemoveOp node | LinkOp node node | UnlinkOp node node

fun apply_op :: "Graph \<Rightarrow> op \<Rightarrow> error + Graph" where
  "apply_op g (AddOp n) = Inr (Add g n)"
| "apply_op g (RemoveOp n) = Inr (Remove g n)"
| "apply_op g (LinkOp s t) = Link g s t"
| "apply_op g (UnlinkOp s t) = Inr (Unlink g s t)"

fun run_ops :: "Graph \<Rightarrow> op list \<Rightarrow> error + Graph" where
  "run_ops g [] = Inr g"
| "run_ops g (x # xs) = (case apply_op g x of Inl e \<Rightarrow> Inl e | Inr g' \<Rightarrow> run_ops g' xs)"

definition reachable :: "Graph \<Rightarrow> bool" where
  "reachable g \<longleftrightarrow> (\<exists>ops. run_ops New ops = Inr g)"

section \<open>The traversal state\<close>

text \<open>
  \<open>dfser\<close> holds a reference to one of the graph's mappings, the order list and the
  marker slice. A panic is the left summand; it carries the state at the panic.
\<close>

record dfser =
  graph :: adjacency
  order :: "node list"
  flip :: "bool list"

type_synonym 'a result = "(error \<times> dfser) + 'a"

definition sawTrue :: "dfser \<Rightarrow> node \<Rightarrow> (bool \<times> dfser) result" where
  "sawTrue d node =
     (if node < 0 \<or> int (length (flip d)) \<le> node then Inl (IndexOutOfRange, d)
      else Inr (flip d ! nat node, d\<lparr>flip := (flip d)[nat node := True]\<rparr>))"

definition sawFalse :: "dfser \<Rightarrow> node \<Rightarrow> (bool \<times> dfser) result" where
  "sawFalse d node =
     (if node < 0 \<or> int (length (flip d)) \<le> node then Inl (IndexOutOfRange, d)
      else Inr (\<not> flip d ! nat node, d\<lparr>flip := (flip d)[nat node := False]\<rparr>))"

text \<open>
  Go does not fix the order in which \<open>range\<close> visits the keys of a map. Every \<open>range\<close>
  of one call of \<open>StrongComponents\<close> runs over a different map (the inner map of a node
  is ranged over only by the one \<open>dfs1\<close> or \<open>dfs2\<close> call on that node), so the orders
  chosen by the runtime are given as parameters: \<open>ro node\<close> is the order in which the
  keys of \<open>d.graph[node]\<close> are visited. A nil inner map has no keys whatever \<open>ro\<close> says.
  \<open>range_order m ro\<close> says that \<open>ro\<close> lists, for every node with an inner map in \<open>m\<close>,
  exactly the keys of that inner map, each once; \<open>keys_order m ks\<close> says the same of
  \<open>ks\<close> and the keys of \<open>m\<close> itself.
\<close>

definition range_keys :: "(node \<Rightarrow> node list) \<Rightarrow> adjacency \<Rightarrow> node \<Rightarrow> node list" where
  "range_keys ro m node = (case m node of None \<Rightarrow> [] | Some s \<Rightarrow> ro node)"

definition range_order :: "adjacency \<Rightarrow> (node \<Rightarrow> node list) \<Rightarrow> bool" where
  "range_order m ro \<longleftrightarrow> (\<forall>n s. m n = Some s \<longrightarrow> distinct (ro n) \<and> set (ro n) = s)"

definition keys_order :: "adjacency \<Rightarrow> node list \<Rightarrow> bool" where
  "keys_order m ks \<longleftrightarrow> distinct ks \<and> set ks = dom m"

text \<open>
  \<open>dfs1\<close> and its loop over the neighbours call each other, and the loop goes on in the
  state the inner call returns. Each call that is made follows a \<open>sawTrue\<close> that turned
  a marker from false to true, and no call turns one back, so the number of false markers
  bounds the recursion; \<open>dfs2\<close> is the same with the markers' polarity flipped.
\<close>

definition falses :: "dfser \<Rightarrow> nat" where
  "falses d = length (filter Not (flip d))"

definition trues :: "dfser \<Rightarrow> nat" where
  "trues d = length (filter (\<lambda>b. b) (flip d))"

function dfs1 :: "(node \<Rightarrow> node list) \<Rightarrow> dfser \<Rightarrow> node \<Rightarrow> dfser result"
  and dfs1_loop :: "(node \<Rightarrow> node list) \<Rightarrow> dfser \<Rightarrow> node list \<Rightarrow> dfser result"
where
  "dfs1 ro d node =
     (case dfs1_loop ro d (range_keys ro (graph d) node) of
        Inl e \<Rightarrow> Inl e
      | Inr d' \<Rightarrow> Inr (d'\<lparr>order := order d' @ [node]\<rparr>))"
| "dfs1_loop ro d [] = Inr d"
| "dfs1_loop ro d (neighbor # rest) =
     (case sawTrue d neighbor of
        Inl e \<Rightarrow> Inl e
      | Inr (r, d1) \<Rightarrow>
          if \<not> r then
            (case dfs1 ro d1 neighbor of
               Inl e \<Rightarrow> Inl e
             | Inr d2 \<Rightarrow> dfs1_loop ro d2 rest)
          else dfs1_loop ro d1 rest)"
  by pat_completeness auto

lemma filter_Not_update_True:
  "i < length xs \<Longrightarrow> \<not> xs ! i \<Longrightarrow>
     length (filter Not (xs[i := True])) < length (filter Not xs)"
proof (induction xs arbitrary: i)
  case Nil
  then show ?case by simp
next
  case (Cons x xs)
  show ?case
  proof (cases i)
    case 0
    with Cons.prems show ?thesis by simp
  next
    case (Suc j)
    with Cons.prems have "length (filter Not (xs[j := True])) < length (filter Not xs)"
      by (intro Cons.IH) simp_all
    with Suc show ?thesis by simp
  qed
qed

lemma filter_Not_update_True_le:
  "length (filter Not (xs[i := True])) \<le> length (filter Not xs)"
proof (induction xs arbitrary: i)
  case Nil
  then show ?case by simp
next
  case (Cons x xs)
  then show ?case by (cases i) (auto simp: le_SucI)
qed

lemma sawTrue_falses_less:
  "sawTrue d n = Inr (False, d1) \<Longrightarrow> falses d1 < falses d"
  by (auto simp: sawTrue_def falses_def split: if_splits intro!: filter_Not_update_True)

lemma sawTrue_falses_le:
  "sawTrue d n = Inr (r, d1) \<Longrightarrow> falses d1 \<le> falses d"
  by (auto simp: sawTrue_def falses_def split: if_splits intro!: filter_Not_update_True_le)

lemma dfs1_falses_partial:
  "dfs1_dfs1_loop_dom (Inl (ro, d, node)) \<Longrightarrow> dfs1 ro d node = Inr d' \<Longrightarrow>
     falses d' \<le> falses d"
  "dfs1_dfs1_loop_dom (Inr (ro, d, xs)) \<Longrightarrow> dfs1_loop ro d xs = Inr d' \<Longrightarrow>
     falses d' \<le> falses d"
proof (induction ro d node and ro d xs arbitrary: d' and d' rule: dfs1_dfs1_loop.pinduct)
  case (1 ro d node)
  then show ?case
    by (auto simp: dfs1.psimps falses_def split: sum.splits)
next
  case (2 ro d)
  then show ?case by (simp add: dfs1_loop.psimps)
next
  case (3 ro d neighbor rest)
  from "3.prems" "3.hyps" obtain r d1 where s: "sawTrue d neighbor = Inr (r, d1)"
    by (auto simp: dfs1_loop.psimps split: sum.splits)
  show ?case
  proof (cases r)
    case True
    with s "3.prems" "3.hyps" have "dfs1_loop ro d1 rest = Inr d'"
      by (simp add: dfs1_loop.psimps)
    with "3.IH"(3)[OF s refl] True have "falses d' \<le> falses d1" by simp
    with sawTrue_falses_le[OF s] show ?thesis by simp
  next
    case False
    with s "3.prems" "3.hyps" obtain d2 where
      a: "dfs1 ro d1 neighbor = Inr d2" and b: "dfs1_loop ro d2 rest = Inr d'"
      by (auto simp: dfs1_loop.psimps split: sum.splits)
    from "3.IH"(1)[OF s refl _ a] False have "falses d2 \<le> falses d1" by simp
    moreover from "3.IH"(2)[OF s refl _ a b] False have "falses d' \<le> falses d2" by simp
    ultimately show ?thesis using sawTrue_falses_le[OF s] by simp
  qed
qed

termination dfs1
proof (relation "inv_image (less_than <*lex*> less_than)
    (\<lambda>x. case x of
       Inl (ro, d, node) \<Rightarrow> (falses d, Suc (length (range_keys ro (graph d) node)))
     | Inr (ro, d, xs) \<Rightarrow> (falses d, length xs))", goal_cases)
  case 1
  show ?case by (intro wf_inv_image wf_lex_prod wf_less_than)
next
  case (2 ro d node)
  then show ?case by simp
next
  case (3 ro d neighbor rest x xa y)
  then show ?case using sawTrue_falses_less[of d neighbor y] by auto
next
  case (4 ro d neighbor rest x xa y xb)
  then show ?case
    using sawTrue_falses_less[of d neighbor y] dfs1_falses_partial(1)[of ro y neighbor xb]
    by auto
next
  case (5 ro d neighbor rest x xa y)
  then show ?case using sawTrue_falses_le[of d neighbor xa y] by auto
qed

function dfs2 :: "(node \<Rightarrow> node list) \<Rightarrow> dfser \<Rightarrow> node \<Rightarrow> dfser result"
  and dfs2_loop :: "(node \<Rightarrow> node list) \<Rightarrow> dfser \<Rightarrow> node list \<Rightarrow> dfser result"
where
  "dfs2 ro d node =
     (case dfs2_loop ro d (range_keys ro (graph d) node) of
        Inl e \<Rightarrow> Inl e
      | Inr d' \<Rightarrow> Inr (d'\<lparr>order := order d' @ [node]\<rparr>))"
| "dfs2_loop ro d [] = Inr d"
| "dfs2_loop ro d (neighbor # rest) =
     (case sawFalse d neighbor of
        Inl e \<Rightarrow> Inl e
      | Inr (r, d1) \<Rightarrow>
          if \<not> r then
            (case dfs2 ro d1 neighbor of
               Inl e \<Rightarrow> Inl e
             | Inr d2 \<Rightarrow> dfs2_loop ro d2 rest)
          else dfs2_loop ro d1 rest)"
  by pat_completeness auto

lemma filter_id_update_False:
  "i < length xs \<Longrightarrow> xs ! i \<Longrightarrow>
     length (filter (\<lambda>b. b) (xs[i := False])) < length (filter (\<lambda>b. b) xs)"
proof (induction xs arbitrary: i)
  case Nil
  then show ?case by simp
next
  case (Cons x xs)
  show ?case
  proof (cases i)
    case 0
    with Cons.prems show ?thesis by simp
  next
    case (Suc j)
    with Cons.prems have
      "length (filter (\<lambda>b. b) (xs[j := False])) < length (filter (\<lambda>b. b) xs)"
      by (intro Cons.IH) simp_all
    with Suc show ?thesis by simp
  qed
qed

lemma filter_id_update_False_le:
  "length (filter (\<lambda>b. b) (xs[i := False])) \<le> length (filter (\<lambda>b. b) xs)"
proof (induction xs arbitrary: i)
  case Nil
  then show ?case by simp
next
  case (Cons x xs)
  then show ?case by (cases i) (auto simp: le_SucI)
qed

lemma sawFalse_trues_less:
  "sawFalse d n = Inr (False, d1) \<Longrightarrow> trues d1 < trues d"
  by (auto simp: sawFalse_def trues_def split: if_splits intro!: filter_id_update_False)

lemma sawFalse_trues_le:
  "sawFalse d n = Inr (r, d1) \<Longrightarrow> trues d1 \<le> trues d"
  by (auto simp: sawFalse_def trues_def split: if_splits intro!: filter_id_update_False_le)

lemma dfs2_trues_partial:
  "dfs2_dfs2_loop_dom (Inl (ro, d, node)) \<Longrightarrow> dfs2 ro d node = Inr d' \<Longrightarrow>
     trues d' \<le> trues d"
  "dfs2_dfs2_loop_dom (Inr (ro, d, xs)) \<Longrightarrow> dfs2_loop ro d xs = Inr d' \<Longrightarrow>
     trues d' \<le> trues d"
proof (induction ro d node and ro d xs arbitrary: d' and d' rule: dfs2_dfs2_loop.pinduct)
  case (1 ro d node)
  then show ?case
    by (auto simp: dfs2.psimps trues_def split: sum.splits)
next
  case (2 ro d)
  then show ?case by (simp add: dfs2_loop.psimps)
next
  case (3 ro d neighbor rest)
  from "3.prems" "3.hyps" obtain r d1 where s: "sawFalse d neighbor = Inr (r, d1)"
    by (auto simp: dfs2_loop.psimps split: sum.splits)
  show ?case
  proof (cases r)
    case True
    with s "3.prems" "3.hyps" have "dfs2_loop ro d1 rest = Inr d'"
      by (simp add: dfs2_loop.psimps)
    with "3.IH"(3)[OF s refl] True have "trues d' \<le> trues d1" by simp
    with sawFalse_trues_le[OF s] show ?thesis by simp
  next
    case False
    with s "3.prems" "3.hyps" obtain d2 where
      a: "dfs2 ro d1 neighbor = Inr d2" and b: "dfs2_loop ro d2 rest = Inr d'"
      by (auto simp: dfs2_loop.psimps split: sum.splits)
    from "3.IH"(1)[OF s refl _ a] False have "trues d2 \<le> trues d1" by simp
    moreover from "3.IH"(2)[OF s refl _ a b] False have "trues d' \<le> trues d2" by simp
    ultimately show ?thesis using sawFalse_trues_le[OF s] by simp
  qed
qed

termination dfs2
proof (relation "inv_image (less_than <*lex*> less_than)
    (\<lambda>x. case x of
       Inl (ro, d, node) \<Rightarrow> (trues d, Suc (length (range_keys ro (graph d) node)))
     | Inr (ro, d, xs) \<Rightarrow> (trues d, length xs))", goal_cases)
  case 1
  show ?case by (intro wf_inv_image wf_lex_prod wf_less_than)
next
  case (2 ro d node)
  then show ?case by simp
next
  case (3 ro d neighbor rest x xa y)
  then show ?case using sawFalse_trues_less[of d neighbor y] by auto
next
  case (4 ro d neighbor rest x xa y xb)
  then show ?case
    using sawFalse_trues_less[of d neighbor y] dfs2_trues_partial(1)[of ro y neighbor xb]
    by auto
next
  case (5 ro d neighbor rest x xa y)
  then show ?case using sawFalse_trues_le[of d neighbor xa y] by auto
qed

section \<open>StrongComponents\<close>

text \<open>
  The first loop of \<open>StrongComponents\<close>, over the keys of \<open>g.out\<close> in the order \<open>ks\<close>.
\<close>

fun pass1 :: "(node \<Rightarrow> node list) \<Rightarrow> dfser \<Rightarrow> node list \<Rightarrow> dfser result" where
  "pass1 ro d [] = Inr d"
| "pass1 ro d (node # rest) =
     (case sawTrue d node of
        Inl e \<Rightarrow> Inl e
      | Inr (r, d1) \<Rightarrow>
          if \<not> r then
            (case dfs1 ro d1 node of
               Inl e \<Rightarrow> Inl e
             | Inr d2 \<Rightarrow> pass1 ro d2 rest)
          else pass1 ro d1 rest)"

text \<open>
  The second loop runs over \<open>order\<close> from its last index down to 0, that is over the
  reversed list. \<open>d.order[:used:used]\<close> is all of \<open>d.order\<close> with its capacity cut to
  its length, and \<open>d.order[used:]\<close> is the empty rest of the same array: a later append
  writes behind the component and never into it, so the component is a value.
\<close>

fun pass2 :: "(node \<Rightarrow> node list) \<Rightarrow> dfser \<Rightarrow> node list \<Rightarrow> node list list \<Rightarrow>
    (dfser \<times> node list list) result" where
  "pass2 ro d [] components = Inr (d, components)"
| "pass2 ro d (node # rest) components =
     (case sawFalse d node of
        Inl e \<Rightarrow> Inl e
      | Inr (r, d1) \<Rightarrow>
          if \<not> r then
            (case dfs2 ro d1 node of
               Inl e \<Rightarrow> Inl e
             | Inr d2 \<Rightarrow>
                 (let component = order d2
                  in pass2 ro (d2\<lparr>order := []\<rparr>) rest (components @ [component])))
          else pass2 ro d1 rest components)"

text \<open>
  \<open>StrongComponents ks fo bo g\<close> is the call on graph \<open>g\<close> when the runtime ranges over
  \<open>g.out\<close> in the order \<open>ks\<close>, over \<open>g.out[n]\<close> in the order \<open>fo n\<close> and over \<open>g.in[n]\<close>
  in the order \<open>bo n\<close>; \<open>len(g.out)\<close> is the number of keys that range visits. The method
  has a pointer receiver and \<open>d.graph\<close> refers to the graph's own mappings, so the
  mappings after the call are those the traversal state refers to: the result is the
  graph after the call and either the panic or the components.
\<close>

definition StrongComponents ::
  "node list \<Rightarrow> (node \<Rightarrow> node list) \<Rightarrow> (node \<Rightarrow> node list) \<Rightarrow> Graph \<Rightarrow>
     Graph \<times> (error + node list list)" where
  "StrongComponents ks fo bo g =
     (let d = \<lparr>graph = out g, order = [], flip = replicate (length ks) False\<rparr> in
      case pass1 fo d ks of
        Inl (e, d') \<Rightarrow> (g\<lparr>out := graph d'\<rparr>, Inl e)
      | Inr d1 \<Rightarrow>
          (let g1 = g\<lparr>out := graph d1\<rparr>;
               order1 = order d1;
               d2 = d1\<lparr>order := [], graph := in' g1\<rparr>
           in case pass2 bo d2 (rev order1) [] of
                Inl (e, d') \<Rightarrow> (g1\<lparr>in' := graph d'\<rparr>, Inl e)
              | Inr (d3, components) \<Rightarrow> (g1\<lparr>in' := graph d3\<rparr>, Inr components)))"

definition orders_of :: "Graph \<Rightarrow> node list \<Rightarrow> (node \<Rightarrow> node list) \<Rightarrow> (node \<Rightarrow> node list) \<Rightarrow> bool"
  where
  "orders_of g ks fo bo \<longleftrightarrow>
     keys_order (out g) ks \<and> range_order (out g) fo \<and> range_order (in' g) bo"

section \<open>Vocabulary of the properties\<close>

text \<open>
  The edges of a graph are the entries of its \<open>out\<close> mapping; a path is a chain of edges
  (of any length, also none). \<open>mirror\<close> is the invariant the two mappings are meant to
  keep, and \<open>consistent\<close> adds that only nodes of the graph have an \<open>in\<close> entry. Of two
  components with an edge from the first into the second,
  \<open>dependencies_first\<close> wants the second one earlier in the sequence and
  \<open>dependents_first\<close> the first one.
\<close>

definition mirror :: "Graph \<Rightarrow> bool" where
  "mirror g \<longleftrightarrow>
     (\<forall>src dst. dst \<in> neighbours (out g) src \<longleftrightarrow> src \<in> neighbours (in' g) dst)"

definition edges :: "Graph \<Rightarrow> (node \<times> node) set" where
  "edges g = {(u, v). v \<in> neighbours (out g) u}"

definition path :: "Graph \<Rightarrow> node \<Rightarrow> node \<Rightarrow> bool" where
  "path g u v \<longleftrightarrow> (u, v) \<in> (edges g)\<^sup>*"

definition same_component :: "node list list \<Rightarrow> node \<Rightarrow> node \<Rightarrow> bool" where
  "same_component cs u v \<longleftrightarrow> (\<exists>c \<in> set cs. u \<in> set c \<and> v \<in> set c)"

definition has_edge :: "Graph \<Rightarrow> node list \<Rightarrow> node list \<Rightarrow> bool" where
  "has_edge g a b \<longleftrightarrow> (\<exists>u \<in> set a. \<exists>v \<in> set b. v \<in> neighbours (out g) u)"

definition dependencies_first :: "Graph \<Rightarrow> node list list \<Rightarrow> bool" where
  "dependencies_first g cs \<longleftrightarrow>
     (\<forall>i j. i < length cs \<and> j < length cs \<and> i \<noteq> j \<and> has_edge g (cs ! i) (cs ! j) \<longrightarrow> j < i)"

definition dependents_first :: "Graph \<Rightarrow> node list list \<Rightarrow> bool" where
  "dependents_first g cs \<longleftrightarrow>
     (\<forall>i j. i < length cs \<and> j < length cs \<and> i \<noteq> j \<and> has_edge g (cs ! i) (cs ! j) \<longrightarrow> i < j)"

definition in_covers_out :: "Graph \<Rightarrow> bool" where
  "in_covers_out g \<longleftrightarrow> dom (out g) \<subseteq> dom (in' g)"

definition consistent :: "Graph \<Rightarrow> bool" where
  "consistent g \<longleftrightarrow> mirror g \<and> dom (in' g) \<subseteq> dom (out g)"

fun is_remove :: "op \<Rightarrow> bool" where
  "is_remove (RemoveOp n) = True"
| "is_remove _ = False"

text \<open>
  For the proofs: the nodes whose marker is true, those whose marker is false, and what
  the second pass keeps true of the components it has emitted: every key of the inner
  map of a node of a component lies in that component or an earlier one (or in \<open>A\<close>).
\<close>

definition marked :: "dfser \<Rightarrow> node set" where
  "marked d = {n. 0 \<le> n \<and> n < int (length (flip d)) \<and> flip d ! nat n}"

definition cleared :: "dfser \<Rightarrow> node set" where
  "cleared d = {n. 0 \<le> n \<and> n < int (length (flip d)) \<and> \<not> flip d ! nat n}"

fun preds_closed :: "(node \<Rightarrow> node set) \<Rightarrow> node set \<Rightarrow> node list list \<Rightarrow> bool" where
  "preds_closed nb A [] \<longleftrightarrow> True"
| "preds_closed nb A (c # cs) \<longleftrightarrow>
     (\<forall>x \<in> set c. nb x \<subseteq> A \<union> set c) \<and> preds_closed nb (A \<union> set c) cs"

text \<open>
  For the first pass: the relation a mapping and its range orders describe, the
  invariant that every key of the inner map of a finished node is marked, and the
  property of the finishing order that the second pass relies on: an edge from a node
  to one that finishes later leads to a node that reaches everything finished in
  between. \<open>comps_of\<close> says which sets the second pass emits for a list of roots,
  \<open>scc\<close> is the strongly connected component of a node, and \<open>keys_in_range\<close> says
  that every key of every inner map is an index of the marker slice.
\<close>

definition succ_rel :: "(node \<Rightarrow> node list) \<Rightarrow> adjacency \<Rightarrow> (node \<times> node) set" where
  "succ_rel ro m = {(x, y). y \<in> set (range_keys ro m x)}"

definition closed :: "(node \<Rightarrow> node list) \<Rightarrow> dfser \<Rightarrow> bool" where
  "closed ro d \<longleftrightarrow> (\<forall>x \<in> set (order d). set (range_keys ro (graph d) x) \<subseteq> marked d)"

definition post_ok :: "(node \<times> node) set \<Rightarrow> node list \<Rightarrow> bool" where
  "post_ok E L \<longleftrightarrow>
     (\<forall>i j k. i \<le> k \<and> k < j \<and> j < length L \<and> (L ! i, L ! j) \<in> E \<longrightarrow> (L ! j, L ! k) \<in> E\<^sup>*)"

fun comps_of :: "(node \<times> node) set \<Rightarrow> node set \<Rightarrow> node list \<Rightarrow> node set list" where
  "comps_of R A [] = []"
| "comps_of R A (r # S) =
     (if r \<in> A then comps_of R A S
      else (R\<^sup>* `` {r} - A) # comps_of R (A \<union> R\<^sup>* `` {r}) S)"

definition scc :: "(node \<times> node) set \<Rightarrow> node \<Rightarrow> node set" where
  "scc E r = {z. (r, z) \<in> E\<^sup>* \<and> (z, r) \<in> E\<^sup>*}"

definition keys_in_range :: "(node \<Rightarrow> node list) \<Rightarrow> dfser \<Rightarrow> bool" where
  "keys_in_range ro d \<longleftrightarrow>
     (\<forall>x. \<forall>y \<in> set (range_keys ro (graph d) x). 0 \<le> y \<and> y < int (length (flip d)))"

text \<open>
  Range orders written as association lists, and the graphs that the scenarios below
  reach.
\<close>

definition order_of :: "(node \<times> node list) list \<Rightarrow> node \<Rightarrow> node list" where
  "order_of al n = (case map_of al n of None \<Rightarrow> [] | Some xs \<Rightarrow> xs)"

definition edge01 :: Graph where
  "edge01 = \<lparr>out = [0 \<mapsto> {1}, 1 \<mapsto> {}], in' = [0 \<mapsto> {}, 1 \<mapsto> {0}]\<rparr>"

definition chain012 :: Graph where
  "chain012 = \<lparr>out = [0 \<mapsto> {1}, 1 \<mapsto> {2}, 2 \<mapsto> {}], in' = [0 \<mapsto> {}, 1 \<mapsto> {0}, 2 \<mapsto> {1}]\<rparr>"

definition chain123 :: Graph where
  "chain123 = \<lparr>out = [1 \<mapsto> {2}, 2 \<mapsto> {3}, 3 \<mapsto> {}], in' = [1 \<mapsto> {}, 2 \<mapsto> {1}, 3 \<mapsto> {2}]\<rparr>"

definition cycle_tail :: Graph where
  "cycle_tail = \<lparr>out = [0 \<mapsto> {1}, 1 \<mapsto> {0, 2}, 2 \<mapsto> {}],
                  in' = [0 \<mapsto> {1}, 1 \<mapsto> {0}, 2 \<mapsto> {1}]\<rparr>"

definition edge12 :: Graph where
  "edge12 = \<lparr>out = [1 \<mapsto> {2}, 2 \<mapsto> {}], in' = [1 \<mapsto> {}, 2 \<mapsto> {1}]\<rparr>"

definition only1 :: Graph where
  "only1 = \<lparr>out = [1 \<mapsto> {}], in' = [0 \<mapsto> {}, 1 \<mapsto> {}]\<rparr>"

definition removed2 :: Graph where
  "removed2 = \<lparr>out = [1 \<mapsto> {2}, 3 \<mapsto> {}], in' = [1 \<mapsto> {}, 2 \<mapsto> {1}, 3 \<mapsto> {}]\<rparr>"

definition readded2 :: Graph where
  "readded2 = \<lparr>out = [1 \<mapsto> {2}, 2 \<mapsto> {}], in' = [1 \<mapsto> {}, 2 \<mapsto> {}]\<rparr>"

definition stale_cycle :: Graph where
  "stale_cycle = \<lparr>out = [0 \<mapsto> {1}, 1 \<mapsto> {2}, 2 \<mapsto> {0}], in' = [0 \<mapsto> {2}, 1 \<mapsto> {}, 2 \<mapsto> {}]\<rparr>"

section \<open>Facts about the mutations\<close>

lemmas graph_defs = New_def Add_def Remove_def Link_def Unlink_def neighbours_def

lemma run_edge01: "run_ops New [LinkOp 0 1] = Inr edge01"
  by (simp add: graph_defs edge01_def fun_eq_iff)

lemma run_chain012: "run_ops New [LinkOp 0 1, LinkOp 1 2] = Inr chain012"
  by (simp add: graph_defs chain012_def fun_eq_iff)

lemma run_chain123: "run_ops New [LinkOp 1 2, LinkOp 2 3] = Inr chain123"
  by (simp add: graph_defs chain123_def fun_eq_iff)

lemma run_cycle_tail: "run_ops New [LinkOp 0 1, LinkOp 1 0, LinkOp 1 2] = Inr cycle_tail"
  by (simp add: graph_defs cycle_tail_def fun_eq_iff insert_commute)

lemma run_edge12: "run_ops New [LinkOp 1 2] = Inr edge12"
  by (simp add: graph_defs edge12_def fun_eq_iff)

lemma run_unlinked: "run_ops New [LinkOp 1 2, LinkOp 2 1, UnlinkOp 2 1] = Inr edge12"
  by (simp add: graph_defs edge12_def fun_eq_iff)

lemma run_only1: "run_ops New [AddOp 0, AddOp 1, RemoveOp 0] = Inr only1"
  by (simp add: graph_defs only1_def fun_eq_iff)

lemma run_removed2:
  "run_ops New [LinkOp 1 2, LinkOp 2 1, LinkOp 2 3, RemoveOp 2] = Inr removed2"
  by (simp add: graph_defs removed2_def fun_eq_iff)

lemma run_readded2: "run_ops New [LinkOp 1 2, RemoveOp 2, AddOp 2] = Inr readded2"
  by (simp add: graph_defs readded2_def fun_eq_iff)

lemma run_stale_cycle:
  "run_ops New [LinkOp 0 1, RemoveOp 1, LinkOp 1 2, RemoveOp 2, LinkOp 2 0] = Inr stale_cycle"
  by (simp add: graph_defs stale_cycle_def fun_eq_iff)

text \<open>
  The mutations never panic: every key of \<open>out\<close> is a key of \<open>in\<close> in every graph built
  from the empty one, so \<open>Link\<close> never assigns into a nil map. Removing an absent node
  and unlinking an absent edge change nothing.
\<close>

lemma Add_in_covers_out: "in_covers_out g \<Longrightarrow> in_covers_out (Add g n)"
  by (auto simp: in_covers_out_def Add_def split: option.splits)

lemma Remove_in_covers_out: "in_covers_out g \<Longrightarrow> in_covers_out (Remove g n)"
  by (auto simp: in_covers_out_def Remove_def Let_def split: if_splits)

lemma Unlink_in_covers_out: "in_covers_out g \<Longrightarrow> in_covers_out (Unlink g s t)"
  by (auto simp: in_covers_out_def Unlink_def Let_def split: option.splits if_splits)

lemma Link_returns:
  assumes "in_covers_out g"
  shows "\<exists>g'. Link g s t = Inr g' \<and> in_covers_out g'"
proof -
  define g1 where "g1 = Add (Add g s) t"
  have c: "in_covers_out g1"
    unfolding g1_def by (intro Add_in_covers_out assms)
  have "s \<in> dom (out g1)" "t \<in> dom (out g1)"
    by (auto simp: g1_def Add_def split: option.splits)
  with c obtain a b where ab: "out g1 s = Some a" "in' g1 t = Some b"
    by (auto simp: in_covers_out_def)
  with c show ?thesis
    by (auto simp: Link_def g1_def[symmetric] in_covers_out_def)
qed

lemma run_ops_returns:
  "in_covers_out g \<Longrightarrow> \<exists>g'. run_ops g ops = Inr g' \<and> in_covers_out g'"
proof (induction ops arbitrary: g)
  case Nil
  then show ?case by simp
next
  case (Cons x ops)
  have "\<exists>g1. apply_op g x = Inr g1 \<and> in_covers_out g1"
    using Cons.prems
    by (cases x)
      (simp_all add: Add_in_covers_out Remove_in_covers_out Unlink_in_covers_out Link_returns)
  then obtain g1 where "apply_op g x = Inr g1" "in_covers_out g1" by blast
  with Cons.IH[of g1] show ?case by simp
qed

lemma mutations_never_panic: "\<exists>g. run_ops New ops = Inr g"
  using run_ops_returns[of New ops] by (auto simp: in_covers_out_def New_def)

lemma Remove_absent: "out g node = None \<Longrightarrow> Remove g node = g"
proof -
  assume a: "out g node = None"
  then have "(out g)(node := None) = out g" by (simp add: fun_eq_iff)
  with a show ?thesis by (simp add: Remove_def neighbours_def)
qed

lemma Unlink_absent:
  "out g src = None \<Longrightarrow> src \<notin> neighbours (in' g) dst \<Longrightarrow> Unlink g src dst = g"
proof (cases "in' g dst")
  case None
  assume "out g src = None"
  with None show ?thesis by (simp add: Unlink_def)
next
  case (Some t)
  assume a: "out g src = None" "src \<notin> neighbours (in' g) dst"
  with Some have "(in' g)(dst \<mapsto> t - {src}) = in' g"
    by (auto simp: fun_eq_iff neighbours_def)
  with a Some show ?thesis by (simp add: Unlink_def)
qed

lemma reachable_in_covers_out: "reachable g \<Longrightarrow> in_covers_out g"
proof -
  assume "reachable g"
  then obtain ops where ops: "run_ops New ops = Inr g" by (auto simp: reachable_def)
  have "in_covers_out New" by (simp add: in_covers_out_def New_def)
  from run_ops_returns[OF this, of ops] ops show ?thesis by auto
qed

lemma Link_never_panics: "reachable g \<Longrightarrow> \<exists>g'. Link g s t = Inr g'"
  using Link_returns[OF reachable_in_covers_out] by blast

text \<open>
  As long as no node is removed the two mappings mirror each other.
\<close>

lemma neighbours_out_Add [simp]: "neighbours (out (Add g n)) x = neighbours (out g) x"
  by (auto simp: neighbours_def Add_def split: option.splits)

lemma neighbours_in_Add:
  "neighbours (in' (Add g n)) x =
     (if x = n \<and> out g n = None then {} else neighbours (in' g) x)"
  by (auto simp: neighbours_def Add_def split: option.splits)

lemma dom_Add: "dom (out (Add g n)) = insert n (dom (out g))"
  "dom (in' (Add g n)) = (if out g n = None then insert n (dom (in' g)) else dom (in' g))"
  by (auto simp: Add_def split: option.splits)

lemma Add_consistent: "consistent g \<Longrightarrow> consistent (Add g n)"
proof -
  assume c: "consistent g"
  then have m: "\<And>s t. t \<in> neighbours (out g) s \<longleftrightarrow> s \<in> neighbours (in' g) t"
    and d: "dom (in' g) \<subseteq> dom (out g)"
    by (simp_all add: consistent_def mirror_def)
  have "out g n = None \<Longrightarrow> neighbours (in' g) n = {}"
    using d by (auto simp: neighbours_def split: option.splits)
  with m have "mirror (Add g n)"
    by (auto simp: mirror_def neighbours_in_Add)
  moreover have "dom (in' (Add g n)) \<subseteq> dom (out (Add g n))"
    using d by (auto simp: dom_Add split: if_splits)
  ultimately show ?thesis by (simp add: consistent_def)
qed

lemma Link_consistent:
  assumes c: "consistent g" and l: "Link g s t = Inr g'"
  shows "consistent g'"
proof -
  define g1 where "g1 = Add (Add g s) t"
  have c1: "consistent g1" unfolding g1_def by (intro Add_consistent c)
  then have m: "\<And>a b. b \<in> neighbours (out g1) a \<longleftrightarrow> a \<in> neighbours (in' g1) b"
    and d: "dom (in' g1) \<subseteq> dom (out g1)"
    by (simp_all add: consistent_def mirror_def)
  from l obtain a b where ab: "out g1 s = Some a" "in' g1 t = Some b"
    and g': "g' = g1\<lparr>out := (out g1)(s \<mapsto> insert t a), in' := (in' g1)(t \<mapsto> insert s b)\<rparr>"
    by (auto simp: Link_def g1_def[symmetric] Let_def split: option.splits)
  have no: "\<And>x. neighbours (out g') x =
      (if x = s then insert t (neighbours (out g1) s) else neighbours (out g1) x)"
    using ab by (auto simp: g' neighbours_def)
  have ni: "\<And>x. neighbours (in' g') x =
      (if x = t then insert s (neighbours (in' g1) t) else neighbours (in' g1) x)"
    using ab by (auto simp: g' neighbours_def)
  have "mirror g'" unfolding mirror_def no ni using m by auto
  moreover have "dom (in' g') \<subseteq> dom (out g')" using d ab by (auto simp: g')
  ultimately show ?thesis by (simp add: consistent_def)
qed

lemma Unlink_consistent:
  assumes c: "consistent g"
  shows "consistent (Unlink g s t)"
proof -
  from c have m: "\<And>a b. b \<in> neighbours (out g) a \<longleftrightarrow> a \<in> neighbours (in' g) b"
    and d: "dom (in' g) \<subseteq> dom (out g)"
    by (simp_all add: consistent_def mirror_def)
  have no: "\<And>x. neighbours (out (Unlink g s t)) x =
      (if x = s then neighbours (out g) s - {t} else neighbours (out g) x)"
    by (auto simp: Unlink_def neighbours_def split: option.splits)
  have ni: "\<And>x. neighbours (in' (Unlink g s t)) x =
      (if x = t then neighbours (in' g) t - {s} else neighbours (in' g) x)"
    by (auto simp: Unlink_def neighbours_def split: option.splits)
  have "mirror (Unlink g s t)" unfolding mirror_def no ni using m by auto
  moreover have "dom (in' (Unlink g s t)) \<subseteq> dom (out (Unlink g s t))"
    using d by (auto simp: Unlink_def split: option.splits)
  ultimately show ?thesis by (simp add: consistent_def)
qed

lemma run_ops_consistent:
  "consistent g \<Longrightarrow> list_all (\<lambda>x. \<not> is_remove x) ops \<Longrightarrow> run_ops g ops = Inr g' \<Longrightarrow>
     consistent g'"
proof (induction ops arbitrary: g)
  case Nil
  then show ?case by simp
next
  case (Cons x ops)
  from Cons.prems(3) obtain g1 where g1: "apply_op g x = Inr g1" "run_ops g1 ops = Inr g'"
    by (auto split: sum.splits)
  from Cons.prems(1,2) g1(1) have "consistent g1"
    by (cases x) (auto simp: Add_consistent Unlink_consistent Link_consistent)
  from Cons.IH[OF this _ g1(2)] Cons.prems(2) show ?case by simp
qed

lemma mirror_without_Remove:
  "list_all (\<lambda>x. \<not> is_remove x) ops \<Longrightarrow> run_ops New ops = Inr g \<Longrightarrow> mirror g"
proof -
  have "consistent New" by (simp add: consistent_def mirror_def New_def neighbours_def)
  then show "list_all (\<lambda>x. \<not> is_remove x) ops \<Longrightarrow> run_ops New ops = Inr g \<Longrightarrow> mirror g"
    using run_ops_consistent[of New ops g] by (simp add: consistent_def)
qed

section \<open>Facts about the traversal\<close>

declare dfs1.simps [simp del] dfs2.simps [simp del]

lemmas traversal_defs = StrongComponents_def sawTrue_def sawFalse_def range_keys_def
  dfs1.simps dfs2.simps

lemma sawTrue_Inr:
  assumes "sawTrue d n = Inr (r, d1)"
  shows "0 \<le> n" "n < int (length (flip d))" "r \<longleftrightarrow> n \<in> marked d"
    "marked d1 = insert n (marked d)" "graph d1 = graph d" "order d1 = order d"
    "length (flip d1) = length (flip d)"
  using assms
  by (auto simp: sawTrue_def marked_def nth_list_update nat_eq_iff split: if_splits)

lemma sawFalse_Inr:
  assumes "sawFalse d n = Inr (r, d1)"
  shows "0 \<le> n" "n < int (length (flip d))" "r \<longleftrightarrow> n \<notin> marked d"
    "marked d1 = marked d - {n}" "graph d1 = graph d" "order d1 = order d"
    "length (flip d1) = length (flip d)"
  using assms
  by (auto simp: sawFalse_def marked_def nth_list_update nat_eq_iff split: if_splits)

lemma sawTrue_Inl: "sawTrue d n = Inl (e, d') \<Longrightarrow> d' = d \<and> e = IndexOutOfRange"
  by (auto simp: sawTrue_def split: if_splits)

lemma sawFalse_Inl: "sawFalse d n = Inl (e, d') \<Longrightarrow> d' = d \<and> e = IndexOutOfRange"
  by (auto simp: sawFalse_def split: if_splits)

lemma sawFalse_cleared:
  assumes "sawFalse d n = Inr (r, d1)"
  shows "r \<longleftrightarrow> n \<in> cleared d" "cleared d1 = insert n (cleared d)"
  using assms
  by (auto simp: sawFalse_def cleared_def nth_list_update nat_eq_iff split: if_splits)

lemma marked_order_update [simp]: "marked (d\<lparr>order := xs\<rparr>) = marked d"
  by (simp add: marked_def)

lemma marked_graph_update [simp]: "marked (d\<lparr>graph := m\<rparr>) = marked d"
  by (simp add: marked_def)

lemma cleared_order_update [simp]: "cleared (d\<lparr>order := xs\<rparr>) = cleared d"
  by (simp add: cleared_def)

lemma cleared_graph_update [simp]: "cleared (d\<lparr>graph := m\<rparr>) = cleared d"
  by (simp add: cleared_def)

lemma marked_subset: "marked d \<subseteq> {0..<int (length (flip d))}"
  by (auto simp: marked_def)

lemma marked_Un_cleared: "marked d \<union> cleared d = {0..<int (length (flip d))}"
  "marked d \<inter> cleared d = {}"
  by (auto simp: marked_def cleared_def)

lemma dfs1_loop_Cons_cases:
  assumes "dfs1_loop ro d (x # xs) = res"
  obtains (panic) "sawTrue d x = Inl (IndexOutOfRange, d)" "res = Inl (IndexOutOfRange, d)"
  | (seen) d1 where "sawTrue d x = Inr (True, d1)" "dfs1_loop ro d1 xs = res"
  | (panic_below) d1 e where "sawTrue d x = Inr (False, d1)" "dfs1 ro d1 x = Inl e" "res = Inl e"
  | (visit) d1 d2 where "sawTrue d x = Inr (False, d1)" "dfs1 ro d1 x = Inr d2"
      "dfs1_loop ro d2 xs = res"
proof (cases "sawTrue d x")
  case (Inl a)
  moreover from Inl have "a = (IndexOutOfRange, d)"
    using sawTrue_Inl[of d x "fst a" "snd a"] by (cases a) simp
  ultimately show ?thesis using assms panic by simp
next
  case (Inr b)
  obtain r d1 where b: "b = (r, d1)" by (cases b)
  show ?thesis
  proof (cases r)
    case True
    with Inr b assms show ?thesis by (intro seen[of d1]) simp_all
  next
    case False
    note r = this
    show ?thesis
    proof (cases "dfs1 ro d1 x")
      case (Inl e)
      with Inr b r assms show ?thesis by (intro panic_below[of d1 e]) simp_all
    next
      case (Inr d2)
      with \<open>sawTrue d x = Inr b\<close> b r assms show ?thesis by (intro visit[of d1 d2]) simp_all
    qed
  qed
qed

lemma dfs1_cases:
  assumes "dfs1 ro d node = res"
  obtains (panic) e where "dfs1_loop ro d (range_keys ro (graph d) node) = Inl e" "res = Inl e"
  | (ok) d1 where "dfs1_loop ro d (range_keys ro (graph d) node) = Inr d1"
      "res = Inr (d1\<lparr>order := order d1 @ [node]\<rparr>)"
  using assms by (cases "dfs1_loop ro d (range_keys ro (graph d) node)") (simp_all add: dfs1.simps)

lemma dfs2_loop_Cons_cases:
  assumes "dfs2_loop ro d (x # xs) = res"
  obtains (panic) "sawFalse d x = Inl (IndexOutOfRange, d)" "res = Inl (IndexOutOfRange, d)"
  | (seen) d1 where "sawFalse d x = Inr (True, d1)" "dfs2_loop ro d1 xs = res"
  | (panic_below) d1 e where "sawFalse d x = Inr (False, d1)" "dfs2 ro d1 x = Inl e" "res = Inl e"
  | (visit) d1 d2 where "sawFalse d x = Inr (False, d1)" "dfs2 ro d1 x = Inr d2"
      "dfs2_loop ro d2 xs = res"
proof (cases "sawFalse d x")
  case (Inl a)
  moreover from Inl have "a = (IndexOutOfRange, d)"
    using sawFalse_Inl[of d x "fst a" "snd a"] by (cases a) simp
  ultimately show ?thesis using assms panic by simp
next
  case (Inr b)
  obtain r d1 where b: "b = (r, d1)" by (cases b)
  show ?thesis
  proof (cases r)
    case True
    with Inr b assms show ?thesis by (intro seen[of d1]) simp_all
  next
    case False
    note r = this
    show ?thesis
    proof (cases "dfs2 ro d1 x")
      case (Inl e)
      with Inr b r assms show ?thesis by (intro panic_below[of d1 e]) simp_all
    next
      case (Inr d2)
      with \<open>sawFalse d x = Inr b\<close> b r assms show ?thesis by (intro visit[of d1 d2]) simp_all
    qed
  qed
qed

lemma dfs2_cases:
  assumes "dfs2 ro d node = res"
  obtains (panic) e where "dfs2_loop ro d (range_keys ro (graph d) node) = Inl e" "res = Inl e"
  | (ok) d1 where "dfs2_loop ro d (range_keys ro (graph d) node) = Inr d1"
      "res = Inr (d1\<lparr>order := order d1 @ [node]\<rparr>)"
  using assms by (cases "dfs2_loop ro d (range_keys ro (graph d) node)") (simp_all add: dfs2.simps)

lemma pass2_Cons_cases:
  assumes "pass2 ro d (x # xs) comps = res"
  obtains (panic) "sawFalse d x = Inl (IndexOutOfRange, d)" "res = Inl (IndexOutOfRange, d)"
  | (seen) d1 where "sawFalse d x = Inr (True, d1)" "pass2 ro d1 xs comps = res"
  | (panic_below) d1 e where "sawFalse d x = Inr (False, d1)" "dfs2 ro d1 x = Inl e" "res = Inl e"
  | (visit) d1 d2 where "sawFalse d x = Inr (False, d1)" "dfs2 ro d1 x = Inr d2"
      "pass2 ro (d2\<lparr>order := []\<rparr>) xs (comps @ [order d2]) = res"
proof (cases "sawFalse d x")
  case (Inl a)
  moreover from Inl have "a = (IndexOutOfRange, d)"
    using sawFalse_Inl[of d x "fst a" "snd a"] by (cases a) simp
  ultimately show ?thesis using assms panic by simp
next
  case (Inr b)
  obtain r d1 where b: "b = (r, d1)" by (cases b)
  show ?thesis
  proof (cases r)
    case True
    with Inr b assms show ?thesis by (intro seen[of d1]) simp_all
  next
    case False
    note r = this
    show ?thesis
    proof (cases "dfs2 ro d1 x")
      case (Inl e)
      with Inr b r assms show ?thesis by (intro panic_below[of d1 e]) simp_all
    next
      case (Inr d2)
      with \<open>sawFalse d x = Inr b\<close> b r assms show ?thesis by (intro visit[of d1 d2]) simp_all
    qed
  qed
qed

lemma pass1_eq_dfs1_loop: "pass1 ro d xs = dfs1_loop ro d xs"
  by (induction xs arbitrary: d) (simp_all split: sum.splits)

text \<open>No step of the traversal writes the mapping it walks or resizes the marker slice.\<close>

lemma dfs1_frame_Inr:
  "dfs1 ro d node = Inr d' \<Longrightarrow> graph d' = graph d \<and> length (flip d') = length (flip d)"
  "dfs1_loop ro d xs = Inr d' \<Longrightarrow> graph d' = graph d \<and> length (flip d') = length (flip d)"
proof (induction ro d node and ro d xs arbitrary: d' and d' rule: dfs1_dfs1_loop.induct)
  case (1 ro d node)
  from "1.prems" show ?case
  proof (cases rule: dfs1_cases)
    case (panic e)
    then show ?thesis by simp
  next
    case (ok d1)
    with "1.IH"[of d1] show ?thesis by simp
  qed
next
  case (2 ro d)
  then show ?case by simp
next
  case (3 ro d x xs)
  from "3.prems" show ?case
  proof (cases rule: dfs1_loop_Cons_cases)
    case panic
    then show ?thesis by simp
  next
    case (seen d1)
    from "3.IH"(3)[OF seen(1) refl _ seen(2)] sawTrue_Inr(5,7)[OF seen(1)]
    show ?thesis by simp
  next
    case (panic_below d1 e)
    then show ?thesis by simp
  next
    case (visit d1 d2)
    from "3.IH"(1)[OF visit(1) refl _ visit(2)] "3.IH"(2)[OF visit(1) refl _ visit(2,3)]
      sawTrue_Inr(5,7)[OF visit(1)]
    show ?thesis by simp
  qed
qed

lemma dfs1_frame_Inl:
  "dfs1 ro d node = Inl (e, d') \<Longrightarrow> graph d' = graph d \<and> e = IndexOutOfRange"
  "dfs1_loop ro d xs = Inl (e, d') \<Longrightarrow> graph d' = graph d \<and> e = IndexOutOfRange"
proof (induction ro d node and ro d xs arbitrary: d' and d' rule: dfs1_dfs1_loop.induct)
  case (1 ro d node)
  from "1.prems" show ?case
  proof (cases rule: dfs1_cases)
    case (panic e)
    with "1.IH"[of d'] show ?thesis by simp
  next
    case (ok d1)
    then show ?thesis by simp
  qed
next
  case (2 ro d)
  then show ?case by simp
next
  case (3 ro d x xs)
  from "3.prems" show ?case
  proof (cases rule: dfs1_loop_Cons_cases)
    case panic
    then show ?thesis by simp
  next
    case (seen d1)
    from "3.IH"(3)[OF seen(1) refl _ seen(2)] sawTrue_Inr(5,7)[OF seen(1)]
    show ?thesis by simp
  next
    case (panic_below d1 e1)
    from "3.IH"(1)[OF panic_below(1) refl, of d'] panic_below sawTrue_Inr(5,7)[OF panic_below(1)]
    show ?thesis by simp
  next
    case (visit d1 d2)
    from dfs1_frame_Inr(1)[OF visit(2)] "3.IH"(2)[OF visit(1) refl _ visit(2,3)]
      sawTrue_Inr(5,7)[OF visit(1)]
    show ?thesis by simp
  qed
qed

lemma dfs2_frame_Inr:
  "dfs2 ro d node = Inr d' \<Longrightarrow> graph d' = graph d \<and> length (flip d') = length (flip d)"
  "dfs2_loop ro d xs = Inr d' \<Longrightarrow> graph d' = graph d \<and> length (flip d') = length (flip d)"
proof (induction ro d node and ro d xs arbitrary: d' and d' rule: dfs2_dfs2_loop.induct)
  case (1 ro d node)
  from "1.prems" show ?case
  proof (cases rule: dfs2_cases)
    case (panic e)
    then show ?thesis by simp
  next
    case (ok d1)
    with "1.IH"[of d1] show ?thesis by simp
  qed
next
  case (2 ro d)
  then show ?case by simp
next
  case (3 ro d x xs)
  from "3.prems" show ?case
  proof (cases rule: dfs2_loop_Cons_cases)
    case panic
    then show ?thesis by simp
  next
    case (seen d1)
    from "3.IH"(3)[OF seen(1) refl _ seen(2)] sawFalse_Inr(5,7)[OF seen(1)]
    show ?thesis by simp
  next
    case (panic_below d1 e)
    then show ?thesis by simp
  next
    case (visit d1 d2)
    from "3.IH"(1)[OF visit(1) refl _ visit(2)] "3.IH"(2)[OF visit(1) refl _ visit(2,3)]
      sawFalse_Inr(5,7)[OF visit(1)]
    show ?thesis by simp
  qed
qed

lemma dfs2_frame_Inl:
  "dfs2 ro d node = Inl (e, d') \<Longrightarrow> graph d' = graph d \<and> e = IndexOutOfRange"
  "dfs2_loop ro d xs = Inl (e, d') \<Longrightarrow> graph d' = graph d \<and> e = IndexOutOfRange"
proof (induction ro d node and ro d xs arbitrary: d' and d' rule: dfs2_dfs2_loop.induct)
  case (1 ro d node)
  from "1.prems" show ?case
  proof (cases rule: dfs2_cases)
    case (panic e)
    with "1.IH"[of d'] show ?thesis by simp
  next
    case (ok d1)
    then show ?thesis by simp
  qed
next
  case (2 ro d)
  then show ?case by simp
next
  case (3 ro d x xs)
  from "3.prems" show ?case
  proof (cases rule: dfs2_loop_Cons_cases)
    case panic
    then show ?thesis by simp
  next
    case (seen d1)
    from "3.IH"(3)[OF seen(1) refl _ seen(2)] sawFalse_Inr(5,7)[OF seen(1)]
    show ?thesis by simp
  next
    case (panic_below d1 e1)
    from "3.IH"(1)[OF panic_below(1) refl, of d'] panic_below sawFalse_Inr(5,7)[OF panic_below(1)]
    show ?thesis by simp
  next
    case (visit d1 d2)
    from dfs2_frame_Inr(1)[OF visit(2)] "3.IH"(2)[OF visit(1) refl _ visit(2,3)]
      sawFalse_Inr(5,7)[OF visit(1)]
    show ?thesis by simp
  qed
qed

lemma pass2_frame_Inr:
  "pass2 ro d xs comps = Inr (d', cs) \<Longrightarrow> graph d' = graph d"
proof (induction xs arbitrary: d comps)
  case Nil
  then show ?case by simp
next
  case (Cons x xs)
  from Cons.prems show ?case
  proof (cases rule: pass2_Cons_cases)
    case panic
    then show ?thesis by simp
  next
    case (seen d1)
    from Cons.IH[OF seen(2)] sawFalse_Inr(5)[OF seen(1)] show ?thesis by simp
  next
    case (panic_below d1 e)
    then show ?thesis by simp
  next
    case (visit d1 d2)
    from Cons.IH[OF visit(3)] dfs2_frame_Inr(1)[OF visit(2)] sawFalse_Inr(5)[OF visit(1)]
    show ?thesis by simp
  qed
qed

lemma pass2_frame_Inl:
  "pass2 ro d xs comps = Inl (e, d') \<Longrightarrow> graph d' = graph d \<and> e = IndexOutOfRange"
proof (induction xs arbitrary: d comps)
  case Nil
  then show ?case by simp
next
  case (Cons x xs)
  from Cons.prems show ?case
  proof (cases rule: pass2_Cons_cases)
    case panic
    then show ?thesis by simp
  next
    case (seen d1)
    from Cons.IH[OF seen(2)] sawFalse_Inr(5)[OF seen(1)] show ?thesis by simp
  next
    case (panic_below d1 e1)
    from dfs2_frame_Inl(1)[of ro d1 x e d'] panic_below sawFalse_Inr(5)[OF panic_below(1)]
    show ?thesis by simp
  next
    case (visit d1 d2)
    from Cons.IH[OF visit(3)] dfs2_frame_Inr(1)[OF visit(2)] sawFalse_Inr(5)[OF visit(1)]
    show ?thesis by simp
  qed
qed

text \<open>
  What a returning traversal has done: the nodes it appended are new, distinct and are
  exactly the nodes whose marker it flipped; the second pass has moreover looked at every
  key of the inner map of every node it appended.
\<close>

lemma dfs1_marks:
  "node \<in> marked d \<Longrightarrow> dfs1 ro d node = Inr d' \<Longrightarrow>
     \<exists>D. order d' = order d @ D @ [node] \<and> distinct D \<and> set D \<inter> marked d = {} \<and>
         marked d' = marked d \<union> set D"
  "dfs1_loop ro d xs = Inr d' \<Longrightarrow>
     \<exists>D. order d' = order d @ D \<and> distinct D \<and> set D \<inter> marked d = {} \<and>
         marked d' = marked d \<union> set D \<and> set xs \<subseteq> marked d'"
proof (induction ro d node and ro d xs arbitrary: d' and d' rule: dfs1_dfs1_loop.induct)
  case (1 ro d node)
  from "1.prems"(2) show ?case
  proof (cases rule: dfs1_cases)
    case (panic e)
    then show ?thesis by simp
  next
    case (ok d1)
    from "1.IH"[OF ok(1)] obtain D where
      "order d1 = order d @ D" "distinct D" "set D \<inter> marked d = {}"
      "marked d1 = marked d \<union> set D"
      by blast
    with ok(2) show ?thesis by (intro exI[of _ D]) simp
  qed
next
  case (2 ro d)
  then show ?case by simp
next
  case (3 ro d x xs)
  from "3.prems" show ?case
  proof (cases rule: dfs1_loop_Cons_cases)
    case panic
    then show ?thesis by simp
  next
    case (seen d1)
    note s = sawTrue_Inr[OF seen(1)]
    from "3.IH"(3)[OF seen(1) refl _ seen(2)] obtain D where
      "order d' = order d1 @ D" "distinct D" "set D \<inter> marked d1 = {}"
      "marked d' = marked d1 \<union> set D" "set xs \<subseteq> marked d'"
      by auto
    with s show ?thesis by (intro exI[of _ D]) auto
  next
    case (panic_below d1 e)
    then show ?thesis by simp
  next
    case (visit d1 d2)
    note s = sawTrue_Inr[OF visit(1)]
    from s have x: "x \<in> marked d1" "x \<notin> marked d" by auto
    from "3.IH"(1)[OF visit(1) refl _ x(1) visit(2)] obtain D1 where D1:
      "order d2 = order d1 @ D1 @ [x]" "distinct D1" "set D1 \<inter> marked d1 = {}"
      "marked d2 = marked d1 \<union> set D1"
      by auto
    from "3.IH"(2)[OF visit(1) refl _ visit(2,3)] obtain D2 where D2:
      "order d' = order d2 @ D2" "distinct D2" "set D2 \<inter> marked d2 = {}"
      "marked d' = marked d2 \<union> set D2" "set xs \<subseteq> marked d'"
      by auto
    from D1 D2 s x show ?thesis
      by (intro exI[of _ "D1 @ [x] @ D2"]) auto
  qed
qed

lemma dfs2_clears:
  "node \<in> cleared d \<Longrightarrow> dfs2 ro d node = Inr d' \<Longrightarrow>
     \<exists>D. order d' = order d @ D @ [node] \<and> distinct D \<and> set D \<inter> cleared d = {} \<and>
         cleared d' = cleared d \<union> set D \<and>
         (\<forall>x \<in> insert node (set D). set (range_keys ro (graph d) x) \<subseteq> cleared d')"
  "dfs2_loop ro d xs = Inr d' \<Longrightarrow>
     \<exists>D. order d' = order d @ D \<and> distinct D \<and> set D \<inter> cleared d = {} \<and>
         cleared d' = cleared d \<union> set D \<and> set xs \<subseteq> cleared d' \<and>
         (\<forall>x \<in> set D. set (range_keys ro (graph d) x) \<subseteq> cleared d')"
proof (induction ro d node and ro d xs arbitrary: d' and d' rule: dfs2_dfs2_loop.induct)
  case (1 ro d node)
  from "1.prems"(2) show ?case
  proof (cases rule: dfs2_cases)
    case (panic e)
    then show ?thesis by simp
  next
    case (ok d1)
    from "1.IH"[OF ok(1)] obtain D where
      "order d1 = order d @ D" "distinct D" "set D \<inter> cleared d = {}"
      "cleared d1 = cleared d \<union> set D" "set (range_keys ro (graph d) node) \<subseteq> cleared d1"
      "\<forall>x \<in> set D. set (range_keys ro (graph d) x) \<subseteq> cleared d1"
      by blast
    with ok(2) show ?thesis by (intro exI[of _ D]) simp
  qed
next
  case (2 ro d)
  then show ?case by simp
next
  case (3 ro d x xs)
  from "3.prems" show ?case
  proof (cases rule: dfs2_loop_Cons_cases)
    case panic
    then show ?thesis by simp
  next
    case (seen d1)
    note s = sawFalse_Inr(5,6)[OF seen(1)] sawFalse_cleared[OF seen(1)]
    from "3.IH"(3)[OF seen(1) refl _ seen(2)] obtain D where
      "order d' = order d1 @ D" "distinct D" "set D \<inter> cleared d1 = {}"
      "cleared d' = cleared d1 \<union> set D" "set xs \<subseteq> cleared d'"
      "\<forall>x \<in> set D. set (range_keys ro (graph d1) x) \<subseteq> cleared d'"
      by auto
    with s show ?thesis by (intro exI[of _ D]) auto
  next
    case (panic_below d1 e)
    then show ?thesis by simp
  next
    case (visit d1 d2)
    note s = sawFalse_Inr(5,6)[OF visit(1)] sawFalse_cleared[OF visit(1)]
    note g2 = dfs2_frame_Inr(1)[OF visit(2)]
    from s have x: "x \<in> cleared d1" "x \<notin> cleared d" by auto
    from "3.IH"(1)[OF visit(1) refl _ x(1) visit(2)] obtain D1 where D1:
      "order d2 = order d1 @ D1 @ [x]" "distinct D1" "set D1 \<inter> cleared d1 = {}"
      "cleared d2 = cleared d1 \<union> set D1"
      "\<forall>y \<in> insert x (set D1). set (range_keys ro (graph d1) y) \<subseteq> cleared d2"
      by auto
    from "3.IH"(2)[OF visit(1) refl _ visit(2,3)] obtain D2 where D2:
      "order d' = order d2 @ D2" "distinct D2" "set D2 \<inter> cleared d2 = {}"
      "cleared d' = cleared d2 \<union> set D2" "set xs \<subseteq> cleared d'"
      "\<forall>y \<in> set D2. set (range_keys ro (graph d2) y) \<subseteq> cleared d'"
      by auto
    have sub: "cleared d2 \<subseteq> cleared d'" using D2(4) by auto
    have cl: "\<forall>y \<in> set (D1 @ [x] @ D2). set (range_keys ro (graph d) y) \<subseteq> cleared d'"
    proof
      fix y assume "y \<in> set (D1 @ [x] @ D2)"
      then consider "y \<in> insert x (set D1)" | "y \<in> set D2" by auto
      then show "set (range_keys ro (graph d) y) \<subseteq> cleared d'"
      proof cases
        case 1
        with D1(5) have "set (range_keys ro (graph d1) y) \<subseteq> cleared d2" by blast
        with sub s(1) show ?thesis by simp
      next
        case 2
        with D2(6) have "set (range_keys ro (graph d2) y) \<subseteq> cleared d'" by blast
        with g2 s(1) show ?thesis by simp
      qed
    qed
    from D1(1-4) D2(1-5) s x have
      "order d' = order d @ (D1 @ [x] @ D2)" "distinct (D1 @ [x] @ D2)"
      "set (D1 @ [x] @ D2) \<inter> cleared d = {}"
      "cleared d' = cleared d \<union> set (D1 @ [x] @ D2)" "set (x # xs) \<subseteq> cleared d'"
      by auto
    with cl show ?thesis by blast
  qed
qed

lemma pass2_components:
  "pass2 ro d xs comps = Inr (d', comps') \<Longrightarrow> order d = [] \<Longrightarrow>
     \<exists>new. comps' = comps @ new \<and> distinct (concat new) \<and>
       set (concat new) \<inter> cleared d = {} \<and> cleared d' = cleared d \<union> set (concat new) \<and>
       set xs \<subseteq> cleared d' \<and> length (flip d') = length (flip d) \<and>
       preds_closed (\<lambda>x. set (range_keys ro (graph d) x)) (cleared d) new"
proof (induction xs arbitrary: d comps)
  case Nil
  then show ?case by simp
next
  case (Cons x xs)
  from Cons.prems(1) show ?case
  proof (cases rule: pass2_Cons_cases)
    case panic
    then show ?thesis by simp
  next
    case (seen d1)
    note s = sawFalse_Inr(5,6,7)[OF seen(1)] sawFalse_cleared[OF seen(1)]
    from s Cons.prems(2) have "order d1 = []" by simp
    from Cons.IH[OF seen(2) this] obtain new where
      "comps' = comps @ new" "distinct (concat new)" "set (concat new) \<inter> cleared d1 = {}"
      "cleared d' = cleared d1 \<union> set (concat new)" "set xs \<subseteq> cleared d'"
      "length (flip d') = length (flip d1)"
      "preds_closed (\<lambda>x. set (range_keys ro (graph d1) x)) (cleared d1) new"
      by blast
    moreover from s have "cleared d1 = cleared d" by auto
    ultimately show ?thesis using s by (intro exI[of _ new]) auto
  next
    case (panic_below d1 e)
    then show ?thesis by simp
  next
    case (visit d1 d2)
    note s = sawFalse_Inr(5,6,7)[OF visit(1)] sawFalse_cleared[OF visit(1)]
    note f2 = dfs2_frame_Inr(1)[OF visit(2)]
    from s have x: "x \<in> cleared d1" "x \<notin> cleared d" by auto
    from dfs2_clears(1)[OF x(1) visit(2)] s(2) Cons.prems(2) obtain D where D:
      "order d2 = D @ [x]" "distinct D" "set D \<inter> cleared d1 = {}"
      "cleared d2 = cleared d1 \<union> set D"
      "\<forall>y \<in> insert x (set D). set (range_keys ro (graph d1) y) \<subseteq> cleared d2"
      by auto
    define c where "c = order d2"
    have c: "set c = insert x (set D)" "distinct c" "cleared d2 = cleared d \<union> set c"
      "set c \<inter> cleared d = {}"
      using D s x by (auto simp: c_def)
    have "order (d2\<lparr>order := []\<rparr>) = []" by simp
    from Cons.IH[OF visit(3) this] obtain new where new:
      "comps' = (comps @ [c]) @ new" "distinct (concat new)"
      "set (concat new) \<inter> cleared d2 = {}"
      "cleared d' = cleared d2 \<union> set (concat new)" "set xs \<subseteq> cleared d'"
      "length (flip d') = length (flip d2)"
      "preds_closed (\<lambda>x. set (range_keys ro (graph d2) x)) (cleared d2) new"
      by (auto simp: c_def)
    have g: "graph d2 = graph d" using f2 s by simp
    have "\<forall>y \<in> set c. set (range_keys ro (graph d) y) \<subseteq> cleared d \<union> set c"
      using D(5) c s(1) by simp
    with new(7) have "preds_closed (\<lambda>x. set (range_keys ro (graph d) x)) (cleared d) (c # new)"
      by (simp add: g c(3))
    moreover have "distinct (concat (c # new))" "set (concat (c # new)) \<inter> cleared d = {}"
      "cleared d' = cleared d \<union> set (concat (c # new))" "set (x # xs) \<subseteq> cleared d'"
      "length (flip d') = length (flip d)"
      using c new f2 s by auto
    ultimately show ?thesis using new(1) by (intro exI[of _ "c # new"]) simp
  qed
qed

lemma preds_closed_nth:
  "preds_closed nb A cs \<Longrightarrow> j < length cs \<Longrightarrow> v \<in> set (cs ! j) \<Longrightarrow> u \<in> nb v \<Longrightarrow>
     u \<in> A \<union> set (concat (take (Suc j) cs))"
proof (induction cs arbitrary: A j)
  case Nil
  then show ?case by simp
next
  case (Cons c cs)
  show ?case
  proof (cases j)
    case 0
    with Cons.prems show ?thesis by auto
  next
    case (Suc k)
    with Cons.prems have "u \<in> (A \<union> set c) \<union> set (concat (take (Suc k) cs))"
      by (intro Cons.IH) simp_all
    with Suc show ?thesis by auto
  qed
qed

lemma distinct_concat_nth:
  "distinct (concat cs) \<Longrightarrow> i < length cs \<Longrightarrow> l < length cs \<Longrightarrow>
     u \<in> set (cs ! i) \<Longrightarrow> u \<in> set (cs ! l) \<Longrightarrow> i = l"
proof (induction cs arbitrary: i l)
  case Nil
  then show ?case by simp
next
  case (Cons c cs)
  show ?case
  proof (cases i; cases l)
    fix i' l' assume "i = Suc i'" "l = Suc l'"
    with Cons.prems Cons.IH[of i' l'] show ?thesis by simp
  next
    fix l' assume "i = 0" "l = Suc l'"
    with Cons.prems have "u \<in> set c" "u \<in> set (concat cs)" by auto
    with Cons.prems(1) show ?thesis by auto
  next
    fix i' assume "i = Suc i'" "l = 0"
    with Cons.prems have "u \<in> set c" "u \<in> set (concat cs)" by auto
    with Cons.prems(1) show ?thesis by auto
  qed simp
qed

lemma in_concat_take:
  "u \<in> set (concat (take n cs)) \<Longrightarrow> \<exists>l. l < n \<and> l < length cs \<and> u \<in> set (cs ! l)"
proof -
  assume "u \<in> set (concat (take n cs))"
  then obtain c where c: "c \<in> set (take n cs)" "u \<in> set c" by auto
  then obtain l where "l < length (take n cs)" "take n cs ! l = c"
    by (auto simp: in_set_conv_nth)
  with c(2) show ?thesis by (intro exI[of _ l]) auto
qed

lemma range_keys_set:
  "range_order m ro \<Longrightarrow> set (range_keys ro m n) = neighbours m n"
  by (auto simp: range_order_def range_keys_def neighbours_def split: option.splits)

text \<open>
  A call that returns: the components are disjoint lists without repetition, together
  they hold exactly the nodes of the graph, and these are the numbers below
  \<open>len(g.out)\<close>. The only panic is an index out of range, and every call on a graph
  with a node outside that range panics.
\<close>

lemma StrongComponents_Inr_passes:
  assumes "snd (StrongComponents ks fo bo g) = Inr comps"
  obtains d1 d3 where
    "pass1 fo \<lparr>graph = out g, order = [], flip = replicate (length ks) False\<rparr> ks = Inr d1"
    "pass2 bo (d1\<lparr>order := [], graph := in' g\<rparr>) (rev (order d1)) [] = Inr (d3, comps)"
proof -
  define d where "d = \<lparr>graph = out g, order = [], flip = replicate (length ks) False\<rparr>"
  show ?thesis
  proof (cases "pass1 fo d ks")
    case (Inl a)
    with assms show ?thesis
      by (cases a) (simp add: StrongComponents_def d_def[symmetric])
  next
    case (Inr d1)
    note p1 = this
    show ?thesis
    proof (cases "pass2 bo (d1\<lparr>order := [], graph := in' g\<rparr>) (rev (order d1)) []")
      case (Inl a)
      with assms p1 show ?thesis
        by (cases a) (simp add: StrongComponents_def d_def[symmetric])
    next
      case (Inr b)
      with assms p1 have "b = (fst b, comps)"
        by (cases b) (simp add: StrongComponents_def d_def[symmetric])
      with Inr p1 that[of d1 "fst b"] show ?thesis by (simp add: d_def)
    qed
  qed
qed

lemma pass1_result:
  assumes k: "keys_order (out g) ks"
    and l: "dfs1_loop fo \<lparr>graph = out g, order = [], flip = replicate (length ks) False\<rparr> ks
      = Inr d1"
  shows "distinct (order d1)" "set (order d1) = dom (out g)" "marked d1 = set (order d1)"
    "cleared d1 = {}" "graph d1 = out g" "length (flip d1) = length ks"
    "dom (out g) = {0..<int (length ks)}"
proof -
  define d0 where "d0 = \<lparr>graph = out g, order = [], flip = replicate (length ks) False\<rparr>"
  note l1 = l[folded d0_def]
  have m0: "marked d0 = {}" by (simp add: marked_def d0_def)
  from dfs1_frame_Inr(2)[OF l1] have len1: "length (flip d1) = length ks"
    and g1: "graph d1 = out g"
    by (simp_all add: d0_def)
  from dfs1_marks(2)[OF l1] obtain D where
    "order d1 = order d0 @ D" "distinct D" "marked d1 = marked d0 \<union> set D"
    "set ks \<subseteq> marked d1"
    by blast
  with m0 have o1: "distinct (order d1)" "marked d1 = set (order d1)" "set ks \<subseteq> marked d1"
    by (simp_all add: d0_def)
  from k have dk: "distinct ks" "set ks = dom (out g)" by (simp_all add: keys_order_def)
  have "set ks \<subseteq> {0..<int (length ks)}" using o1(3) marked_subset[of d1] len1 by auto
  moreover have "card (set ks) = card {0..<int (length ks)}"
    using dk(1) by (simp add: distinct_card)
  ultimately have ks: "set ks = {0..<int (length ks)}"
    by (intro card_subset_eq) simp_all
  with o1(3) marked_subset[of d1] len1 have m1: "marked d1 = {0..<int (length ks)}" by auto
  with marked_Un_cleared[of d1] len1 show "cleared d1 = {}" by auto
  from o1 m1 ks dk g1 len1 show "distinct (order d1)" "set (order d1) = dom (out g)"
    "marked d1 = set (order d1)" "graph d1 = out g" "length (flip d1) = length ks"
    "dom (out g) = {0..<int (length ks)}"
    by simp_all
qed

lemma StrongComponents_Inr:
  assumes r: "snd (StrongComponents ks fo bo g) = Inr comps"
    and k: "keys_order (out g) ks"
  shows "distinct (concat comps)" "set (concat comps) = dom (out g)"
    "dom (out g) = {0..<int (length ks)}"
    "preds_closed (\<lambda>x. set (range_keys bo (in' g) x)) {} comps"
proof -
  from r obtain d1 d3 where
    p1: "pass1 fo \<lparr>graph = out g, order = [], flip = replicate (length ks) False\<rparr> ks = Inr d1"
    and p2: "pass2 bo (d1\<lparr>order := [], graph := in' g\<rparr>) (rev (order d1)) [] = Inr (d3, comps)"
    by (rule StrongComponents_Inr_passes)
  note res = pass1_result[OF k p1[unfolded pass1_eq_dfs1_loop]]
  define d2 where "d2 = d1\<lparr>order := [], graph := in' g\<rparr>"
  have "order d2 = []" by (simp add: d2_def)
  from pass2_components[OF p2[folded d2_def] this] res(4) obtain new where new:
    "comps = new" "distinct (concat new)" "cleared d3 = set (concat new)"
    "set (rev (order d1)) \<subseteq> cleared d3" "length (flip d3) = length (flip d2)"
    "preds_closed (\<lambda>x. set (range_keys bo (graph d2) x)) {} new"
    by (auto simp: d2_def)
  show "distinct (concat comps)" using new by simp
  have "cleared d3 \<subseteq> {0..<int (length ks)}"
    using marked_Un_cleared(1)[of d3] new(5) res(6) by (auto simp: d2_def)
  with new(1,3,4) res(2,7) show "set (concat comps) = dom (out g)" by auto
  show "dom (out g) = {0..<int (length ks)}" by (rule res(7))
  show "preds_closed (\<lambda>x. set (range_keys bo (in' g) x)) {} comps"
    using new(1,6) by (simp add: d2_def)
qed

lemma StrongComponents_error:
  "snd (StrongComponents ks fo bo g) = Inl e \<Longrightarrow> e = IndexOutOfRange"
proof -
  assume a: "snd (StrongComponents ks fo bo g) = Inl e"
  define d where "d = \<lparr>graph = out g, order = [], flip = replicate (length ks) False\<rparr>"
  show ?thesis
  proof (cases "pass1 fo d ks")
    case (Inl x)
    obtain e1 d' where x: "x = (e1, d')" by (cases x)
    from Inl x have "e1 = IndexOutOfRange"
      using dfs1_frame_Inl(2)[of fo d ks e1 d'] by (simp add: pass1_eq_dfs1_loop)
    with Inl x a show ?thesis by (simp add: StrongComponents_def d_def[symmetric])
  next
    case (Inr d1)
    note p1 = this
    show ?thesis
    proof (cases "pass2 bo (d1\<lparr>order := [], graph := in' g\<rparr>) (rev (order d1)) []")
      case (Inl x)
      obtain e1 d' where x: "x = (e1, d')" by (cases x)
      from Inl x have "e1 = IndexOutOfRange"
        using pass2_frame_Inl[of bo _ _ _ e1 d'] by simp
      with Inl x p1 a show ?thesis by (simp add: StrongComponents_def d_def[symmetric])
    next
      case (Inr b)
      with p1 a show ?thesis
        by (cases b) (simp add: StrongComponents_def d_def[symmetric])
    qed
  qed
qed

lemma StrongComponents_panics:
  assumes k: "keys_order (out g) ks" and n: "n \<in> dom (out g)"
    and r: "n < 0 \<or> int (card (dom (out g))) \<le> n"
  shows "snd (StrongComponents ks fo bo g) = Inl IndexOutOfRange"
proof (cases "snd (StrongComponents ks fo bo g)")
  case (Inl e)
  with StrongComponents_error[OF Inl] show ?thesis by simp
next
  case (Inr comps)
  from StrongComponents_Inr(3)[OF Inr k] have d: "dom (out g) = {0..<int (length ks)}" .
  from k have "card (dom (out g)) = length ks"
    using distinct_card[of ks] by (simp add: keys_order_def)
  with d n r show ?thesis by auto
qed

lemma StrongComponents_New: "StrongComponents [] fo bo New = (New, Inr [])"
  by (simp add: StrongComponents_def New_def)

text \<open>
  The first pass keeps the finishing order well formed, and every node a traversal
  appends is reached from the node it started at.
\<close>

lemma post_ok_snoc:
  assumes "post_ok E L"
    and "\<And>i k. i \<le> k \<Longrightarrow> k < length L \<Longrightarrow> (L ! i, v) \<in> E \<Longrightarrow> (v, L ! k) \<in> E\<^sup>*"
  shows "post_ok E (L @ [v])"
  unfolding post_ok_def
proof (intro allI impI, elim conjE)
  fix i j k
  assume a: "i \<le> k" "k < j" "j < length (L @ [v])" "((L @ [v]) ! i, (L @ [v]) ! j) \<in> E"
  show "((L @ [v]) ! j, (L @ [v]) ! k) \<in> E\<^sup>*"
  proof (cases "j < length L")
    case True
    with a have "(L ! i, L ! j) \<in> E" by (simp add: nth_append)
    with assms(1) a(1,2) True have "(L ! j, L ! k) \<in> E\<^sup>*"
      unfolding post_ok_def by blast
    with a True show ?thesis by (simp add: nth_append)
  next
    case False
    with a(3) have j: "j = length L" by simp
    with a have "(L ! i, v) \<in> E" "k < length L" by (simp_all add: nth_append)
    from assms(2)[OF a(1) this(2) this(1)] j a(2) show ?thesis by (simp add: nth_append)
  qed
qed

lemma dfs1_post:
  "node \<in> marked d \<Longrightarrow> closed ro d \<Longrightarrow> post_ok (succ_rel ro (graph d)) (order d) \<Longrightarrow>
   \<forall>x \<in> set (order d). (x, node) \<notin> succ_rel ro (graph d) \<Longrightarrow>
   dfs1 ro d node = Inr d' \<Longrightarrow> order d' = order d @ D @ [node] \<Longrightarrow>
     closed ro d' \<and> post_ok (succ_rel ro (graph d)) (order d') \<and>
     (\<forall>z \<in> set D. (node, z) \<in> (succ_rel ro (graph d))\<^sup>*)"
  "closed ro d \<Longrightarrow> post_ok (succ_rel ro (graph d)) (order d) \<Longrightarrow>
   dfs1_loop ro d xs = Inr d' \<Longrightarrow> order d' = order d @ D \<Longrightarrow>
     closed ro d' \<and> post_ok (succ_rel ro (graph d)) (order d') \<and>
     (\<forall>z \<in> set D. \<exists>w \<in> set xs. (w, z) \<in> (succ_rel ro (graph d))\<^sup>*)"
proof (induction ro d node and ro d xs arbitrary: d' D and d' D rule: dfs1_dfs1_loop.induct)
  case (1 ro d node)
  let ?E = "succ_rel ro (graph d)"
  from "1.prems"(5) show ?case
  proof (cases rule: dfs1_cases)
    case (panic e)
    then show ?thesis by simp
  next
    case (ok d1)
    from ok(2) "1.prems"(6) have o1: "order d1 = order d @ D" by simp
    from "1.IH"[OF "1.prems"(2,3) ok(1) o1] have
      c1: "closed ro d1" and p1: "post_ok ?E (order d1)" and
      r1: "\<forall>z \<in> set D. \<exists>w \<in> set (range_keys ro (graph d) node). (w, z) \<in> ?E\<^sup>*"
      by simp_all
    note f1 = dfs1_frame_Inr(2)[OF ok(1)]
    from dfs1_marks(2)[OF ok(1)] have sub: "set (range_keys ro (graph d) node) \<subseteq> marked d1"
      by blast
    have reach: "\<forall>z \<in> set D. (node, z) \<in> ?E\<^sup>*"
    proof
      fix z assume "z \<in> set D"
      with r1 obtain w where "w \<in> set (range_keys ro (graph d) node)" "(w, z) \<in> ?E\<^sup>*"
        by blast
      moreover from this(1) have "(node, w) \<in> ?E" by (simp add: succ_rel_def)
      ultimately show "(node, z) \<in> ?E\<^sup>*" by (blast intro: converse_rtrancl_into_rtrancl)
    qed
    have cl: "closed ro d'"
      using c1 sub f1 ok(2) by (auto simp: closed_def)
    have "post_ok ?E (order d1 @ [node])"
    proof (rule post_ok_snoc[OF p1])
      fix i k
      assume ik: "i \<le> k" "k < length (order d1)" "(order d1 ! i, node) \<in> ?E"
      have "\<not> i < length (order d)"
      proof
        assume "i < length (order d)"
        then have "order d1 ! i \<in> set (order d)" by (simp add: o1 nth_append)
        with "1.prems"(4) ik(3) show False by blast
      qed
      with ik(1,2) have "order d1 ! k \<in> set D"
        by (auto simp: o1 nth_append)
      with reach show "(node, order d1 ! k) \<in> ?E\<^sup>*" by blast
    qed
    with ok(2) cl reach show ?thesis by simp
  qed
next
  case (2 ro d)
  then show ?case by simp
next
  case (3 ro d x xs)
  let ?E = "succ_rel ro (graph d)"
  from "3.prems"(3) show ?case
  proof (cases rule: dfs1_loop_Cons_cases)
    case panic
    then show ?thesis by simp
  next
    case (seen d1)
    note s = sawTrue_Inr[OF seen(1)]
    from s "3.prems"(1) have c1: "closed ro d1" by (auto simp: closed_def)
    from s "3.prems"(2) have p1: "post_ok (succ_rel ro (graph d1)) (order d1)" by simp
    from s "3.prems"(4) have o1: "order d' = order d1 @ D" by simp
    from "3.IH"(3)[OF seen(1) refl _ c1 p1 seen(2) o1] s
    show ?thesis by auto
  next
    case (panic_below d1 e)
    then show ?thesis by simp
  next
    case (visit d1 d2)
    note s = sawTrue_Inr[OF visit(1)]
    from s have x: "x \<in> marked d1" "x \<notin> marked d" by auto
    from s "3.prems"(1) have c1: "closed ro d1" by (auto simp: closed_def)
    from s "3.prems"(2) have p1: "post_ok (succ_rel ro (graph d1)) (order d1)" by simp
    have nx: "\<forall>y \<in> set (order d1). (y, x) \<notin> succ_rel ro (graph d1)"
      using "3.prems"(1) x(2) s(5,6) by (auto simp: closed_def succ_rel_def)
    from dfs1_marks(1)[OF x(1) visit(2)] obtain D1 where
      D1: "order d2 = order d1 @ D1 @ [x]" by blast
    from dfs1_marks(2)[OF visit(3)] obtain D2 where
      D2: "order d' = order d2 @ D2" by blast
    note g2 = dfs1_frame_Inr(1)[OF visit(2)]
    from "3.IH"(1)[OF visit(1) refl _ x(1) c1 p1 nx visit(2) D1] have
      c2: "closed ro d2" and p2: "post_ok (succ_rel ro (graph d1)) (order d2)" and
      r1: "\<forall>z \<in> set D1. (x, z) \<in> (succ_rel ro (graph d1))\<^sup>*"
      by simp_all
    from p2 g2 have p2': "post_ok (succ_rel ro (graph d2)) (order d2)" by simp
    from "3.IH"(2)[OF visit(1) refl _ visit(2) c2 p2' visit(3) D2] g2 s(5) have
      c3: "closed ro d'" and p3: "post_ok ?E (order d')" and
      r2: "\<forall>z \<in> set D2. \<exists>w \<in> set xs. (w, z) \<in> ?E\<^sup>*"
      by simp_all
    from D1 D2 s(6) "3.prems"(4) have D: "D = D1 @ [x] @ D2" by simp
    have "\<forall>z \<in> set D. \<exists>w \<in> set (x # xs). (w, z) \<in> ?E\<^sup>*"
      unfolding D using r1 r2 s(5) by auto
    with c3 p3 show ?thesis by simp
  qed
qed

lemma dfs2_reach:
  "node \<in> cleared d \<Longrightarrow> dfs2 ro d node = Inr d' \<Longrightarrow> order d' = order d @ D @ [node] \<Longrightarrow>
     \<forall>z \<in> set D. (node, z) \<in> (succ_rel ro (graph d))\<^sup>*"
  "dfs2_loop ro d xs = Inr d' \<Longrightarrow> order d' = order d @ D \<Longrightarrow>
     \<forall>z \<in> set D. \<exists>w \<in> set xs. (w, z) \<in> (succ_rel ro (graph d))\<^sup>*"
proof (induction ro d node and ro d xs arbitrary: d' D and d' D rule: dfs2_dfs2_loop.induct)
  case (1 ro d node)
  let ?R = "succ_rel ro (graph d)"
  from "1.prems"(2) show ?case
  proof (cases rule: dfs2_cases)
    case (panic e)
    then show ?thesis by simp
  next
    case (ok d1)
    from ok(2) "1.prems"(3) have o1: "order d1 = order d @ D" by simp
    note r1 = "1.IH"[OF ok(1) o1]
    show ?thesis
    proof
      fix z assume "z \<in> set D"
      with r1 obtain w where "w \<in> set (range_keys ro (graph d) node)" "(w, z) \<in> ?R\<^sup>*"
        by blast
      moreover from this(1) have "(node, w) \<in> ?R" by (simp add: succ_rel_def)
      ultimately show "(node, z) \<in> ?R\<^sup>*" by (blast intro: converse_rtrancl_into_rtrancl)
    qed
  qed
next
  case (2 ro d)
  then show ?case by simp
next
  case (3 ro d x xs)
  let ?R = "succ_rel ro (graph d)"
  from "3.prems"(1) show ?case
  proof (cases rule: dfs2_loop_Cons_cases)
    case panic
    then show ?thesis by simp
  next
    case (seen d1)
    note s = sawFalse_Inr[OF seen(1)]
    from s "3.prems"(2) have o1: "order d' = order d1 @ D" by simp
    from "3.IH"(3)[OF seen(1) refl _ seen(2) o1] s
    show ?thesis by auto
  next
    case (panic_below d1 e)
    then show ?thesis by simp
  next
    case (visit d1 d2)
    note s = sawFalse_Inr[OF visit(1)] and c = sawFalse_cleared[OF visit(1)]
    from c have x: "x \<in> cleared d1" by auto
    from dfs2_clears(1)[OF x visit(2)] obtain D1 where
      D1: "order d2 = order d1 @ D1 @ [x]" by blast
    from dfs2_clears(2)[OF visit(3)] obtain D2 where
      D2: "order d' = order d2 @ D2" by blast
    note g2 = dfs2_frame_Inr(1)[OF visit(2)]
    from "3.IH"(1)[OF visit(1) refl _ x visit(2) D1] have
      r1: "\<forall>z \<in> set D1. (x, z) \<in> (succ_rel ro (graph d1))\<^sup>*"
      by simp
    from "3.IH"(2)[OF visit(1) refl _ visit(2,3) D2] g2 s(5) have
      r2: "\<forall>z \<in> set D2. \<exists>w \<in> set xs. (w, z) \<in> ?R\<^sup>*"
      by simp
    from D1 D2 s(6) "3.prems"(2) have D: "D = D1 @ [x] @ D2" by simp
    show ?thesis unfolding D using r1 r2 s(5) by auto
  qed
qed

lemma post_ok_later:
  assumes p: "post_ok E L" and c: "E `` set L \<subseteq> set L"
    and r: "(u, v) \<in> E\<^sup>*" and u: "u \<in> set L"
  shows "\<exists>i j. i \<le> j \<and> j < length L \<and> L ! i = v \<and> (u, L ! j) \<in> E\<^sup>* \<and> (L ! j, u) \<in> E\<^sup>*"
  using r
proof (induction rule: rtrancl_induct)
  case base
  from u obtain i where "i < length L" "L ! i = u" by (auto simp: in_set_conv_nth)
  then show ?case by (intro exI[of _ i]) auto
next
  case (step v' v)
  from step.IH obtain i' j' where ij: "i' \<le> j'" "j' < length L" "L ! i' = v'"
    "(u, L ! j') \<in> E\<^sup>*" "(L ! j', u) \<in> E\<^sup>*"
    by blast
  from ij(1-3) have "v' \<in> set L" by auto
  with step.hyps(2) c have "v \<in> set L" by blast
  then obtain i where i: "i < length L" "L ! i = v" by (auto simp: in_set_conv_nth)
  show ?case
  proof (cases "i \<le> j'")
    case True
    with ij i show ?thesis by blast
  next
    case False
    with ij(1,3) i step.hyps(2) have "i' \<le> j' \<and> j' < i \<and> i < length L \<and> (L ! i', L ! i) \<in> E"
      by simp
    with p have "(L ! i, L ! j') \<in> E\<^sup>*" unfolding post_ok_def by blast
    with ij(5) i(2) have bk: "(v, u) \<in> E\<^sup>*" by auto
    from step.hyps have "(u, v) \<in> E\<^sup>*" by auto
    with bk i show ?thesis by (intro exI[of _ i]) auto
  qed
qed

text \<open>
  The second pass emits, for each root, the nodes that reach the root and were not
  emitted before; with a well-formed finishing order each such set is the strongly
  connected component of its root.
\<close>

lemma pass2_sets:
  "pass2 ro d xs comps = Inr (d', comps') \<Longrightarrow> order d = [] \<Longrightarrow>
   succ_rel ro (graph d) `` cleared d \<subseteq> cleared d \<Longrightarrow>
     \<exists>new. comps' = comps @ new \<and>
       map set new = comps_of (succ_rel ro (graph d)) (cleared d) xs"
proof (induction xs arbitrary: d comps)
  case Nil
  then show ?case by simp
next
  case (Cons x xs)
  let ?R = "succ_rel ro (graph d)"
  let ?A = "cleared d"
  from Cons.prems(1) show ?case
  proof (cases rule: pass2_Cons_cases)
    case panic
    then show ?thesis by simp
  next
    case (seen d1)
    note s = sawFalse_Inr(5,6)[OF seen(1)] sawFalse_cleared[OF seen(1)]
    from s have e: "cleared d1 = ?A" "x \<in> ?A" "graph d1 = graph d" by auto
    from s Cons.prems(2) have "order d1 = []" by simp
    from Cons.IH[OF seen(2) this] Cons.prems(3) e show ?thesis by simp
  next
    case (panic_below d1 e)
    then show ?thesis by simp
  next
    case (visit d1 d2)
    note s = sawFalse_Inr(5,6)[OF visit(1)] sawFalse_cleared[OF visit(1)]
    note g2 = dfs2_frame_Inr(1)[OF visit(2)]
    from s have x: "x \<in> cleared d1" "x \<notin> ?A" "cleared d1 = insert x ?A" by auto
    from dfs2_clears(1)[OF x(1) visit(2)] s(2) Cons.prems(2) obtain D where D:
      "order d2 = D @ [x]" "set D \<inter> cleared d1 = {}" "cleared d2 = cleared d1 \<union> set D"
      "\<forall>y \<in> insert x (set D). set (range_keys ro (graph d1) y) \<subseteq> cleared d2"
      by auto
    from D(1) s(2) Cons.prems(2) have "order d2 = order d1 @ D @ [x]" by simp
    from dfs2_reach(1)[OF x(1) visit(2) this] s(1)
    have r: "\<forall>z \<in> set D. (x, z) \<in> ?R\<^sup>*" by simp
    define c where "c = order d2"
    have c: "set c = insert x (set D)" "cleared d2 = ?A \<union> set c" "set c \<inter> ?A = {}"
      using D x by (auto simp: c_def)
    have closed2: "?R `` cleared d2 \<subseteq> cleared d2"
    proof
      fix z assume "z \<in> ?R `` cleared d2"
      then obtain y where y: "y \<in> cleared d2" "(y, z) \<in> ?R" by blast
      show "z \<in> cleared d2"
      proof (cases "y \<in> ?A")
        case True
        with y(2) Cons.prems(3) c(2) show ?thesis by blast
      next
        case False
        with y(1) c have "y \<in> insert x (set D)" by blast
        with D(4) y(2) s(1) show ?thesis by (auto simp: succ_rel_def)
      qed
    qed
    have "x \<in> cleared d2" using c by simp
    then have "?R\<^sup>* `` {x} \<subseteq> ?R\<^sup>* `` cleared d2" by blast
    also have "\<dots> = cleared d2" by (rule Image_closed_trancl[OF closed2])
    finally have up: "?R\<^sup>* `` {x} \<subseteq> ?A \<union> set c" using c(2) by simp
    have down: "set c \<subseteq> ?R\<^sup>* `` {x}" using c(1) r by auto
    from up down c(3) have sc: "set c = ?R\<^sup>* `` {x} - ?A" by blast
    from up down c(2) have A2: "cleared d2 = ?A \<union> ?R\<^sup>* `` {x}" by blast
    have g: "graph (d2\<lparr>order := []\<rparr>) = graph d" using g2 s(1) by simp
    have "order (d2\<lparr>order := []\<rparr>) = []" by simp
    from Cons.IH[OF visit(3)[folded c_def] this] closed2 g obtain new where new:
      "comps' = (comps @ [c]) @ new" "map set new = comps_of ?R (cleared d2) xs"
      by auto
    have "map set (c # new) = comps_of ?R ?A (x # xs)"
      using new(2) sc A2 x(2) by simp
    with new(1) show ?thesis by (intro exI[of _ "c # new"]) simp
  qed
qed

lemma comps_of_scc:
  assumes d: "distinct L" and f: "E \<subseteq> set L \<times> set L"
    and k: "\<And>u v. (u, v) \<in> E\<^sup>* \<Longrightarrow> u \<in> set L \<Longrightarrow>
      \<exists>i j. i \<le> j \<and> j < length L \<and> L ! i = v \<and> (u, L ! j) \<in> E\<^sup>* \<and> (L ! j, u) \<in> E\<^sup>*"
  shows "rev L = P @ xs \<Longrightarrow>
    \<forall>C \<in> set (comps_of (E\<inverse>) ((E\<inverse>)\<^sup>* `` set P) xs). \<exists>r \<in> C. C = scc E r"
proof (induction xs arbitrary: P)
  case Nil
  then show ?case by simp
next
  case (Cons r S)
  let ?R = "E\<inverse>"
  let ?A = "?R\<^sup>* `` set P"
  have conv: "\<And>a b. (a, b) \<in> ?R\<^sup>* \<longleftrightarrow> (b, a) \<in> E\<^sup>*"
    by (simp add: rtrancl_converse)
  from Cons.prems have L: "L = rev S @ r # rev P"
    by (metis rev_append rev_rev_ident rev.simps(2) append_assoc append_Cons append_Nil)
  from Cons.prems have "rev L = (P @ [r]) @ S" by simp
  note IH = Cons.IH[OF this]
  have hull: "?R\<^sup>* `` set (P @ [r]) = ?A \<union> ?R\<^sup>* `` {r}" by auto
  show ?case
  proof (cases "r \<in> ?A")
    case True
    then obtain p where p: "p \<in> set P" "(p, r) \<in> ?R\<^sup>*" by blast
    have "?R\<^sup>* `` {r} \<subseteq> ?A"
    proof
      fix z assume "z \<in> ?R\<^sup>* `` {r}"
      then have "(r, z) \<in> ?R\<^sup>*" by simp
      with p(2) have "(p, z) \<in> ?R\<^sup>*" by (rule rtrancl_trans)
      with p(1) show "z \<in> ?A" by blast
    qed
    with hull have "?R\<^sup>* `` set (P @ [r]) = ?A" by blast
    with IH True show ?thesis by simp
  next
    case False
    have rL: "r \<in> set L" "L ! length S = r" "length S < length L"
      by (simp_all add: L nth_append)
    have "?R\<^sup>* `` {r} - ?A = scc E r"
    proof (intro set_eqI iffI)
      fix z assume z: "z \<in> ?R\<^sup>* `` {r} - ?A"
      then have zr: "(z, r) \<in> E\<^sup>*" by (simp add: conv)
      have "z \<in> set L"
      proof (cases "z = r")
        case True
        with rL show ?thesis by simp
      next
        case False
        with zr obtain y where "(z, y) \<in> E" by (auto elim: converse_rtranclE)
        with f show ?thesis by blast
      qed
      from k[OF zr this] obtain i j where ij: "i \<le> j" "j < length L" "L ! i = r"
        "(z, L ! j) \<in> E\<^sup>*" "(L ! j, z) \<in> E\<^sup>*"
        by blast
      from ij(1,2) have "i < length L" by simp
      moreover from ij(3) rL(2) have "L ! i = L ! length S" by simp
      ultimately have i: "i = length S"
        using nth_eq_iff_index_eq[OF d _ rL(3), of i] by simp
      have "j = length S"
      proof (rule ccontr)
        assume "j \<noteq> length S"
        with ij(1) i have "length S < j" by simp
        then have "L ! j = rev P ! (j - Suc (length S))"
          by (simp add: L nth_append nth_Cons')
        moreover from ij(2) \<open>length S < j\<close> have "j - Suc (length S) < length (rev P)"
          by (simp add: L)
        ultimately have "L ! j \<in> set (rev P)" using nth_mem by metis
        then have "L ! j \<in> set P" by simp
        with ij(4) have "z \<in> ?A" by (auto simp: conv)
        with z show False by simp
      qed
      with ij(5) rL(2) zr show "z \<in> scc E r" by (simp add: scc_def)
    next
      fix z assume "z \<in> scc E r"
      then have z: "(r, z) \<in> E\<^sup>*" "(z, r) \<in> E\<^sup>*" by (simp_all add: scc_def)
      have "z \<notin> ?A"
      proof
        assume "z \<in> ?A"
        then obtain p where p: "p \<in> set P" "(p, z) \<in> ?R\<^sup>*" by blast
        from z(1) have "(z, r) \<in> ?R\<^sup>*" by (simp add: conv)
        with p(2) have "(p, r) \<in> ?R\<^sup>*" by (rule rtrancl_trans)
        with p(1) False show False by blast
      qed
      with z(2) show "z \<in> ?R\<^sup>* `` {r} - ?A" by (simp add: conv)
    qed
    moreover have "r \<in> scc E r" by (simp add: scc_def)
    ultimately have "\<exists>q \<in> ?R\<^sup>* `` {r} - ?A. ?R\<^sup>* `` {r} - ?A = scc E q" by blast
    with IH False hull show ?thesis by simp
  qed
qed

lemma succ_rel_out: "range_order (out g) fo \<Longrightarrow> succ_rel fo (out g) = edges g"
  by (auto simp: succ_rel_def edges_def range_keys_set)

lemma succ_rel_in:
  "range_order (in' g) bo \<Longrightarrow> mirror g \<Longrightarrow> succ_rel bo (in' g) = (edges g)\<inverse>"
  by (auto simp: succ_rel_def edges_def range_keys_set mirror_def)

text \<open>
  A call returns when the node ids are the numbers below the number of nodes and the
  keys of the inner maps are nodes of the graph.
\<close>

lemma sawTrue_returns:
  "0 \<le> n \<Longrightarrow> n < int (length (flip d)) \<Longrightarrow> \<exists>r d1. sawTrue d n = Inr (r, d1)"
  by (simp add: sawTrue_def)

lemma sawFalse_returns:
  "0 \<le> n \<Longrightarrow> n < int (length (flip d)) \<Longrightarrow> \<exists>r d1. sawFalse d n = Inr (r, d1)"
  by (simp add: sawFalse_def)

lemma dfs1_returns:
  "keys_in_range ro d \<Longrightarrow> \<exists>d'. dfs1 ro d node = Inr d'"
  "keys_in_range ro d \<Longrightarrow> \<forall>y \<in> set xs. 0 \<le> y \<and> y < int (length (flip d)) \<Longrightarrow>
     \<exists>d'. dfs1_loop ro d xs = Inr d'"
proof (induction ro d node and ro d xs rule: dfs1_dfs1_loop.induct)
  case (1 ro d node)
  from "1.prems" have "\<forall>y \<in> set (range_keys ro (graph d) node). 0 \<le> y \<and> y < int (length (flip d))"
    by (simp add: keys_in_range_def)
  from "1.IH"[OF "1.prems" this] obtain d1 where
    "dfs1_loop ro d (range_keys ro (graph d) node) = Inr d1" by blast
  then show ?case by (simp add: dfs1.simps)
next
  case (2 ro d)
  then show ?case by simp
next
  case (3 ro d x xs)
  from "3.prems"(2) sawTrue_returns[of x d] obtain r d1 where s: "sawTrue d x = Inr (r, d1)"
    by auto
  note f = sawTrue_Inr(5,7)[OF s]
  from "3.prems"(1) f have k1: "keys_in_range ro d1" by (simp add: keys_in_range_def)
  from "3.prems"(2) f have r1: "\<forall>y \<in> set xs. 0 \<le> y \<and> y < int (length (flip d1))" by simp
  show ?case
  proof (cases r)
    case True
    from "3.IH"(3)[OF s refl _ k1 r1] True obtain d' where "dfs1_loop ro d1 xs = Inr d'" by auto
    with s True show ?thesis by simp
  next
    case False
    from "3.IH"(1)[OF s refl False k1] obtain d2 where d2: "dfs1 ro d1 x = Inr d2" by blast
    note f2 = dfs1_frame_Inr(1)[OF d2]
    from k1 f2 have k2: "keys_in_range ro d2" by (simp add: keys_in_range_def)
    from r1 f2 have r2: "\<forall>y \<in> set xs. 0 \<le> y \<and> y < int (length (flip d2))" by simp
    from "3.IH"(2)[OF s refl False d2 k2 r2] obtain d' where "dfs1_loop ro d2 xs = Inr d'"
      by blast
    with s False d2 show ?thesis by simp
  qed
qed

lemma dfs2_returns:
  "keys_in_range ro d \<Longrightarrow> \<exists>d'. dfs2 ro d node = Inr d'"
  "keys_in_range ro d \<Longrightarrow> \<forall>y \<in> set xs. 0 \<le> y \<and> y < int (length (flip d)) \<Longrightarrow>
     \<exists>d'. dfs2_loop ro d xs = Inr d'"
proof (induction ro d node and ro d xs rule: dfs2_dfs2_loop.induct)
  case (1 ro d node)
  from "1.prems" have "\<forall>y \<in> set (range_keys ro (graph d) node). 0 \<le> y \<and> y < int (length (flip d))"
    by (simp add: keys_in_range_def)
  from "1.IH"[OF "1.prems" this] obtain d1 where
    "dfs2_loop ro d (range_keys ro (graph d) node) = Inr d1" by blast
  then show ?case by (simp add: dfs2.simps)
next
  case (2 ro d)
  then show ?case by simp
next
  case (3 ro d x xs)
  from "3.prems"(2) sawFalse_returns[of x d] obtain r d1 where s: "sawFalse d x = Inr (r, d1)"
    by auto
  note f = sawFalse_Inr(5,7)[OF s]
  from "3.prems"(1) f have k1: "keys_in_range ro d1" by (simp add: keys_in_range_def)
  from "3.prems"(2) f have r1: "\<forall>y \<in> set xs. 0 \<le> y \<and> y < int (length (flip d1))" by simp
  show ?case
  proof (cases r)
    case True
    from "3.IH"(3)[OF s refl _ k1 r1] True obtain d' where "dfs2_loop ro d1 xs = Inr d'" by auto
    with s True show ?thesis by simp
  next
    case False
    from "3.IH"(1)[OF s refl False k1] obtain d2 where d2: "dfs2 ro d1 x = Inr d2" by blast
    note f2 = dfs2_frame_Inr(1)[OF d2]
    from k1 f2 have k2: "keys_in_range ro d2" by (simp add: keys_in_range_def)
    from r1 f2 have r2: "\<forall>y \<in> set xs. 0 \<le> y \<and> y < int (length (flip d2))" by simp
    from "3.IH"(2)[OF s refl False d2 k2 r2] obtain d' where "dfs2_loop ro d2 xs = Inr d'"
      by blast
    with s False d2 show ?thesis by simp
  qed
qed

lemma pass2_returns:
  "keys_in_range ro d \<Longrightarrow> \<forall>y \<in> set xs. 0 \<le> y \<and> y < int (length (flip d)) \<Longrightarrow>
     \<exists>d' cs. pass2 ro d xs comps = Inr (d', cs)"
proof (induction xs arbitrary: d comps)
  case Nil
  then show ?case by simp
next
  case (Cons x xs)
  from Cons.prems(2) sawFalse_returns[of x d] obtain r d1 where s: "sawFalse d x = Inr (r, d1)"
    by auto
  note f = sawFalse_Inr(5,7)[OF s]
  from Cons.prems(1) f have k1: "keys_in_range ro d1" by (simp add: keys_in_range_def)
  from Cons.prems(2) f have r1: "\<forall>y \<in> set xs. 0 \<le> y \<and> y < int (length (flip d1))" by simp
  show ?case
  proof (cases r)
    case True
    from Cons.IH[OF k1 r1, of comps] s True show ?thesis by simp
  next
    case False
    from dfs2_returns(1)[OF k1] obtain d2 where d2: "dfs2 ro d1 x = Inr d2" by blast
    note f2 = dfs2_frame_Inr(1)[OF d2]
    from k1 f2 have k2: "keys_in_range ro (d2\<lparr>order := []\<rparr>)"
      by (simp add: keys_in_range_def)
    from r1 f2 have r2: "\<forall>y \<in> set xs. 0 \<le> y \<and> y < int (length (flip (d2\<lparr>order := []\<rparr>)))"
      by simp
    from Cons.IH[OF k2 r2, of "comps @ [order d2]"] s False d2 show ?thesis by simp
  qed
qed

lemma StrongComponents_returns:
  assumes o: "orders_of g ks fo bo"
    and n: "\<forall>n \<in> dom (out g). 0 \<le> n \<and> n < int (length ks)"
    and eo: "\<forall>x. neighbours (out g) x \<subseteq> dom (out g)"
    and ei: "\<forall>x. neighbours (in' g) x \<subseteq> dom (out g)"
  shows "\<exists>comps. snd (StrongComponents ks fo bo g) = Inr comps"
proof -
  from o have k: "keys_order (out g) ks" and f: "range_order (out g) fo"
    and b: "range_order (in' g) bo"
    by (simp_all add: orders_of_def)
  define d0 where "d0 = \<lparr>graph = out g, order = [], flip = replicate (length ks) False\<rparr>"
  have "keys_in_range fo d0"
    using eo n by (auto simp: keys_in_range_def d0_def range_keys_set[OF f])
  moreover have "\<forall>y \<in> set ks. 0 \<le> y \<and> y < int (length (flip d0))"
    using k n by (simp add: keys_order_def d0_def)
  ultimately obtain d1 where l1: "dfs1_loop fo d0 ks = Inr d1"
    using dfs1_returns(2) by blast
  note res = pass1_result[OF k l1[unfolded d0_def]]
  define d2 where "d2 = d1\<lparr>order := [], graph := in' g\<rparr>"
  have "keys_in_range bo d2"
    using ei n res(6) by (auto simp: keys_in_range_def d2_def range_keys_set[OF b])
  moreover have "\<forall>y \<in> set (rev (order d1)). 0 \<le> y \<and> y < int (length (flip d2))"
    using n res(2,6) by (simp add: d2_def)
  ultimately obtain d3 comps where "pass2 bo d2 (rev (order d1)) [] = Inr (d3, comps)"
    using pass2_returns by blast
  with l1 have "snd (StrongComponents ks fo bo g) = Inr comps"
    by (simp add: StrongComponents_def d0_def[symmetric] d2_def[symmetric] pass1_eq_dfs1_loop res(5))
  then show ?thesis by blast
qed

text \<open>Range orders of small maps.\<close>

lemma orders_ofI:
  "keys_order (out g) ks \<Longrightarrow> range_order (out g) fo \<Longrightarrow> range_order (in' g) bo \<Longrightarrow>
     orders_of g ks fo bo"
  by (simp add: orders_of_def)

lemma range_order_empty: "range_order m ro \<Longrightarrow> m n = Some {} \<Longrightarrow> ro n = []"
  by (auto simp: range_order_def)

lemma range_order_single: "range_order m ro \<Longrightarrow> m n = Some {a} \<Longrightarrow> ro n = [a]"
proof -
  assume "range_order m ro" "m n = Some {a}"
  then have "distinct (ro n)" "set (ro n) = {a}" by (auto simp: range_order_def)
  then show ?thesis
    by (cases "ro n"; cases "tl (ro n)") auto
qed

lemma keys_order_three:
  assumes "keys_order m ks" "dom m = {a, b, c}" "a \<noteq> b" "a \<noteq> c" "b \<noteq> c"
  shows "ks \<in> {[a, b, c], [a, c, b], [b, a, c], [b, c, a], [c, a, b], [c, b, a]}"
proof -
  from assms have d: "distinct ks" and s: "set ks = {a, b, c}" by (simp_all add: keys_order_def)
  from d s assms(3-5) have "length ks = 3" using distinct_card[of ks] by simp
  then obtain x y z where ks: "ks = [x, y, z]"
    by (cases ks; cases "tl ks"; cases "tl (tl ks)") auto
  with s have "x \<in> {a, b, c}" "y \<in> {a, b, c}" "z \<in> {a, b, c}" by auto
  with d ks show ?thesis by auto
qed

section \<open>Strong components\<close>

text \<open>
  On a graph whose \<open>in\<close> mapping mirrors its \<open>out\<close> mapping the algorithm is right:
  when the call returns, a node of the output shares a component with exactly the nodes
  that it reaches and that reach it.
\<close>

lemma StrongComponents_strong:
  assumes o: "orders_of g ks fo bo" and m: "mirror g"
    and r: "snd (StrongComponents ks fo bo g) = Inr comps"
    and u: "u \<in> set (concat comps)"
  shows "same_component comps u v \<longleftrightarrow> path g u v \<and> path g v u"
proof -
  from o have k: "keys_order (out g) ks" and f: "range_order (out g) fo"
    and b: "range_order (in' g) bo"
    by (simp_all add: orders_of_def)
  define d0 where "d0 = \<lparr>graph = out g, order = [], flip = replicate (length ks) False\<rparr>"
  define E where "E = edges g"
  from r obtain d1 d3 where
    p1: "pass1 fo d0 ks = Inr d1" and
    p2: "pass2 bo (d1\<lparr>order := [], graph := in' g\<rparr>) (rev (order d1)) [] = Inr (d3, comps)"
    unfolding d0_def by (rule StrongComponents_Inr_passes)
  from p1 have l1: "dfs1_loop fo d0 ks = Inr d1" by (simp add: pass1_eq_dfs1_loop)
  note res = pass1_result[OF k l1[unfolded d0_def]]
  define L where "L = order d1"
  have E0: "succ_rel fo (graph d0) = E" by (simp add: d0_def E_def succ_rel_out[OF f])
  have "closed fo d0" "post_ok E (order d0)" "order d1 = order d0 @ L"
    by (simp_all add: closed_def post_ok_def d0_def L_def)
  from dfs1_post(2)[OF this(1) this(2)[folded E0] l1 this(3)]
  have c1: "closed fo d1" and po: "post_ok E L" by (simp_all add: E0 L_def)
  have cl: "E `` set L \<subseteq> set L"
    using c1 res(3,5) by (auto simp: closed_def L_def E_def succ_rel_out[OF f, symmetric] succ_rel_def)
  have fld: "E \<subseteq> set L \<times> set L"
  proof
    fix e assume e: "e \<in> E"
    obtain x y where xy: "e = (x, y)" by (cases e)
    with e have "y \<in> neighbours (out g) x" by (simp add: E_def edges_def)
    then have "x \<in> dom (out g)" by (auto simp: neighbours_def split: option.splits)
    with res(2) have "x \<in> set L" by (simp add: L_def)
    with cl e xy show "e \<in> set L \<times> set L" by blast
  qed
  define d2 where "d2 = d1\<lparr>order := [], graph := in' g\<rparr>"
  have R: "succ_rel bo (graph d2) = E\<inverse>" by (simp add: d2_def E_def succ_rel_in[OF b m])
  have "order d2 = []" "succ_rel bo (graph d2) `` cleared d2 \<subseteq> cleared d2"
    using res(4) by (simp_all add: d2_def)
  from pass2_sets[OF p2[folded d2_def] this]
  have "map set comps = comps_of (succ_rel bo (graph d2)) (cleared d2) (rev (order d1))"
    by simp
  moreover have "cleared d2 = {}" using res(4) by (simp add: d2_def)
  ultimately have ms: "map set comps = comps_of (E\<inverse>) {} (rev L)"
    by (simp add: R L_def)
  have "rev L = [] @ rev L" by simp
  from comps_of_scc[OF res(1)[folded L_def] fld post_ok_later[OF po cl] this]
  have "\<forall>C \<in> set (map set comps). \<exists>q \<in> C. C = scc E q" by (simp add: ms)
  then have sc: "\<And>c. c \<in> set comps \<Longrightarrow> \<exists>q \<in> set c. set c = scc E q" by simp
  show ?thesis
  proof
    assume "same_component comps u v"
    then obtain c where c: "c \<in> set comps" "u \<in> set c" "v \<in> set c"
      by (auto simp: same_component_def)
    from sc[OF c(1)] obtain q where "set c = scc E q" by blast
    with c(2,3) have "(u, q) \<in> E\<^sup>*" "(q, v) \<in> E\<^sup>*" "(v, q) \<in> E\<^sup>*" "(q, u) \<in> E\<^sup>*"
      by (simp_all add: scc_def)
    then show "path g u v \<and> path g v u"
      unfolding path_def E_def by (blast intro: rtrancl_trans)
  next
    assume p: "path g u v \<and> path g v u"
    from u obtain c where c: "c \<in> set comps" "u \<in> set c" by auto
    from sc[OF c(1)] obtain q where q: "set c = scc E q" by blast
    with c(2) have "(u, q) \<in> E\<^sup>*" "(q, u) \<in> E\<^sup>*" by (simp_all add: scc_def)
    with p have "(q, v) \<in> E\<^sup>*" "(v, q) \<in> E\<^sup>*"
      unfolding path_def E_def by (blast intro: rtrancl_trans)+
    with q have "v \<in> set c" by (simp add: scc_def)
    with c show "same_component comps u v" by (auto simp: same_component_def)
  qed
qed

text \<open>
  C1: two nodes of the output are in the same component if and only if each reaches the
  other along the edges of the graph. The code breaks this after a removal: \<open>Remove\<close>
  leaves the removed node in the \<open>out\<close> sets of its predecessors, and \<open>Add\<close> gives a
  node that comes back an empty \<open>in\<close> set, so the second pass, which walks \<open>in\<close>, misses
  edges that the first pass, which walks \<open>out\<close>, followed. After
  \<open>Link(0,1); Remove(1); Link(1,2); Remove(2); Link(2,0)\<close> the \<open>out\<close> mapping holds the
  cycle 0, 1, 2, and under every choice of range orders the call returns components that
  separate 0 from 1. (When the range over \<open>g.out\<close> starts at 0 the call also puts 0 and 2
  in one component, although the \<open>in\<close> mapping records no edge that leaves 0.)
\<close>

theorem stale_cycle_is_split:
  assumes "run_ops New [LinkOp 0 1, RemoveOp 1, LinkOp 1 2, RemoveOp 2, LinkOp 2 0] = Inr g"
    and "orders_of g ks fo bo"
  shows "\<exists>comps. snd (StrongComponents ks fo bo g) = Inr comps \<and>
           0 \<in> set (concat comps) \<and> 1 \<in> set (concat comps) \<and>
           path g 0 1 \<and> path g 1 0 \<and> \<not> same_component comps 0 1"
proof -
  from assms(1)[unfolded run_stale_cycle] have g: "g = stale_cycle" by simp
  from assms(2) have k: "keys_order (out g) ks" and f: "range_order (out g) fo"
    and b: "range_order (in' g) bo"
    by (simp_all add: orders_of_def)
  have fo: "fo 0 = [1]" "fo 1 = [2]" "fo 2 = [0]"
    using range_order_single[OF f, of 0 1] range_order_single[OF f, of 1 2]
      range_order_single[OF f, of 2 0]
    by (simp_all add: g stale_cycle_def)
  have bo: "bo 0 = [2]" "bo 1 = []" "bo 2 = []"
    using range_order_single[OF b, of 0 2] range_order_empty[OF b, of 1]
      range_order_empty[OF b, of 2]
    by (simp_all add: g stale_cycle_def)
  have e: "(0, 1) \<in> edges g" "(1, 2) \<in> edges g" "(2, 0) \<in> edges g"
    by (simp_all add: edges_def neighbours_def g stale_cycle_def)
  have p: "path g 0 1" "path g 1 0"
    unfolding path_def using e by (blast intro: rtrancl_trans)+
  have "dom (out g) = {0, 1, 2}" by (auto simp: g stale_cycle_def)
  from keys_order_three[OF k this]
  have "ks \<in> {[0, 1, 2], [0, 2, 1], [1, 0, 2], [1, 2, 0], [2, 0, 1], [2, 1, 0]}" by simp
  then consider "ks = [0, 1, 2]" | "ks = [0, 2, 1]" | "ks = [1, 0, 2]" | "ks = [1, 2, 0]"
    | "ks = [2, 0, 1]" | "ks = [2, 1, 0]"
    by auto
  then have "snd (StrongComponents ks fo bo g) \<in>
      {Inr [[2, 0], [1]], Inr [[1], [2], [0]], Inr [[2], [0], [1]]}"
  proof cases
    case 1
    then show ?thesis by (simp add: g stale_cycle_def traversal_defs fo bo)
  next
    case 2
    then show ?thesis by (simp add: g stale_cycle_def traversal_defs fo bo)
  next
    case 3
    then show ?thesis by (simp add: g stale_cycle_def traversal_defs fo bo)
  next
    case 4
    then show ?thesis by (simp add: g stale_cycle_def traversal_defs fo bo)
  next
    case 5
    then show ?thesis by (simp add: g stale_cycle_def traversal_defs fo bo)
  next
    case 6
    then show ?thesis by (simp add: g stale_cycle_def traversal_defs fo bo)
  qed
  then consider "snd (StrongComponents ks fo bo g) = Inr [[2, 0], [1]]"
    | "snd (StrongComponents ks fo bo g) = Inr [[1], [2], [0]]"
    | "snd (StrongComponents ks fo bo g) = Inr [[2], [0], [1]]"
    by auto
  then show ?thesis
  proof cases
    case 1
    with p show ?thesis by (simp add: same_component_def)
  next
    case 2
    with p show ?thesis by (simp add: same_component_def)
  next
    case 3
    with p show ?thesis by (simp add: same_component_def)
  qed
qed

theorem stale_cycle_is_split_witness:
  "run_ops New [LinkOp 0 1, RemoveOp 1, LinkOp 1 2, RemoveOp 2, LinkOp 2 0] = Inr stale_cycle \<and>
   orders_of stale_cycle [0, 1, 2] (order_of [(0, [1]), (1, [2]), (2, [0])])
     (order_of [(0, [2])]) \<and>
   snd (StrongComponents [0, 1, 2] (order_of [(0, [1]), (1, [2]), (2, [0])])
     (order_of [(0, [2])]) stale_cycle) = Inr [[2, 0], [1]] \<and>
   path stale_cycle 0 1 \<and> path stale_cycle 1 0 \<and> \<not> same_component [[2, 0], [1]] 0 1 \<and>
   same_component [[2, 0], [1]] 0 2 \<and> (\<forall>v. 0 \<notin> neighbours (in' stale_cycle) v)"
proof -
  have o: "orders_of stale_cycle [0, 1, 2] (order_of [(0, [1]), (1, [2]), (2, [0])])
     (order_of [(0, [2])])"
    by (intro orders_ofI)
      (auto simp: keys_order_def range_order_def order_of_def stale_cycle_def split: if_splits)
  have r: "snd (StrongComponents [0, 1, 2] (order_of [(0, [1]), (1, [2]), (2, [0])])
     (order_of [(0, [2])]) stale_cycle) = Inr [[2, 0], [1]]"
    by (simp add: stale_cycle_def traversal_defs order_of_def)
  have i: "same_component [[2, 0], [1]] 0 2" "\<forall>v. 0 \<notin> neighbours (in' stale_cycle) v"
    by (simp_all add: same_component_def neighbours_def stale_cycle_def)
  from stale_cycle_is_split[OF run_stale_cycle o] r o i run_stale_cycle
  show ?thesis by simp
qed

section \<open>Dependency order\<close>

text \<open>
  C2, as amended: for every graph whose \<open>in\<close> mapping mirrors its \<open>out\<close> mapping and
  every choice of range orders, when \<open>StrongComponents\<close> returns, a component with an
  edge into a different component comes before that component in the returned
  sequence: the dependent component is emitted first, the depended-upon one later.
\<close>

theorem StrongComponents_dependents_first:
  assumes "orders_of g ks fo bo" and "mirror g"
    and "snd (StrongComponents ks fo bo g) = Inr comps"
  shows "dependents_first g comps"
  unfolding dependents_first_def has_edge_def
proof (intro allI impI, elim conjE bexE)
  fix i j u v
  assume ij: "i < length comps" "j < length comps" "i \<noteq> j"
    and u: "u \<in> set (comps ! i)" and v: "v \<in> set (comps ! j)"
    and e: "v \<in> neighbours (out g) u"
  from assms(1) have k: "keys_order (out g) ks" and b: "range_order (in' g) bo"
    by (simp_all add: orders_of_def)
  note sc = StrongComponents_Inr[OF assms(3) k]
  from e assms(2) have "u \<in> neighbours (in' g) v" by (simp add: mirror_def)
  with b have "u \<in> set (range_keys bo (in' g) v)" by (simp add: range_keys_set)
  from preds_closed_nth[OF sc(4) ij(2) v this]
  have "u \<in> set (concat (take (Suc j) comps))" by simp
  from in_concat_take[OF this] obtain l where
    l: "l < Suc j" "l < length comps" "u \<in> set (comps ! l)"
    by blast
  from distinct_concat_nth[OF sc(1) ij(1) l(2) u l(3)] have "i = l" .
  with l(1) ij(3) show "i < j" by simp
qed

theorem StrongComponents_dependents_first_witness:
  "orders_of cycle_tail [0, 1, 2] (order_of [(0, [1]), (1, [0, 2])])
     (order_of [(0, [1]), (1, [0]), (2, [1])]) \<and>
   mirror cycle_tail \<and>
   snd (StrongComponents [0, 1, 2] (order_of [(0, [1]), (1, [0, 2])])
     (order_of [(0, [1]), (1, [0]), (2, [1])]) cycle_tail) = Inr [[1, 0], [2]] \<and>
   dependents_first cycle_tail [[1, 0], [2]]"
proof -
  have o: "orders_of cycle_tail [0, 1, 2] (order_of [(0, [1]), (1, [0, 2])])
     (order_of [(0, [1]), (1, [0]), (2, [1])])"
    by (intro orders_ofI)
      (auto simp: keys_order_def range_order_def order_of_def cycle_tail_def split: if_splits)
  have m: "mirror cycle_tail"
    by (auto simp: mirror_def neighbours_def cycle_tail_def split: if_splits)
  have r: "snd (StrongComponents [0, 1, 2] (order_of [(0, [1]), (1, [0, 2])])
     (order_of [(0, [1]), (1, [0]), (2, [1])]) cycle_tail) = Inr [[1, 0], [2]]"
    by (simp add: cycle_tail_def traversal_defs order_of_def)
  from StrongComponents_dependents_first[OF o m r] o m r show ?thesis by simp
qed

text \<open>
  The order the specification states, with the depended-upon component first, fails on
  the graph of \<open>Link(0,1)\<close>: the call returns \<open>[[0],[1]]\<close>, the component of 0
  before the component of 1 that it has an edge into.
\<close>

theorem dependencies_first_counterexample:
  "run_ops New [LinkOp 0 1] = Inr edge01 \<and>
   orders_of edge01 [0, 1] (order_of [(0, [1])]) (order_of [(1, [0])]) \<and>
   snd (StrongComponents [0, 1] (order_of [(0, [1])]) (order_of [(1, [0])]) edge01) =
     Inr [[0], [1]] \<and>
   \<not> dependencies_first edge01 [[0], [1]]"
proof -
  have o: "orders_of edge01 [0, 1] (order_of [(0, [1])]) (order_of [(1, [0])])"
    by (intro orders_ofI)
      (auto simp: keys_order_def range_order_def order_of_def edge01_def split: if_splits)
  have r: "snd (StrongComponents [0, 1] (order_of [(0, [1])]) (order_of [(1, [0])]) edge01) =
     Inr [[0], [1]]"
    by (simp add: edge01_def traversal_defs order_of_def)
  have "\<not> dependencies_first edge01 [[0], [1]]"
  proof
    assume "dependencies_first edge01 [[0], [1]]"
    from this[unfolded dependencies_first_def, rule_format, of 0 1]
    show False by (simp add: has_edge_def neighbours_def edge01_def)
  qed
  with o r run_edge01 show ?thesis by simp
qed

section \<open>Every node in one component\<close>

text \<open>
  C3: every node of the graph is in exactly one returned component. Where the call
  returns this holds (shown above), but the marker slice has \<open>len(g.out)\<close> entries and
  is indexed by node id, so the call returns only when the node ids are the numbers
  below the number of nodes: after \<open>Link(1,2)\<close> it panics with an index out of range
  under every range order, and no node is in any component.
\<close>

theorem StrongComponents_panics_after_Link_1_2:
  assumes "run_ops New [LinkOp 1 2] = Inr g" and "keys_order (out g) ks"
  shows "snd (StrongComponents ks fo bo g) = Inl IndexOutOfRange"
proof -
  from assms(1)[unfolded run_edge12] have g: "g = edge12" by simp
  have "dom (out g) = {1, 2}" by (auto simp: g edge12_def)
  then have "2 \<in> dom (out g)" "int (card (dom (out g))) \<le> 2" by simp_all
  with assms(2) show ?thesis by (intro StrongComponents_panics[of g ks 2]) simp_all
qed

theorem StrongComponents_panics_after_Link_1_2_witness:
  "run_ops New [LinkOp 1 2] = Inr edge12 \<and> keys_order (out edge12) [1, 2] \<and>
   snd (StrongComponents [1, 2] (order_of [(1, [2])]) (order_of [(2, [1])]) edge12) =
     Inl IndexOutOfRange"
proof -
  have k: "keys_order (out edge12) [1, 2]" by (auto simp: keys_order_def edge12_def)
  from StrongComponents_panics_after_Link_1_2[OF run_edge12 k] run_edge12 k
  show ?thesis by simp
qed

section \<open>Panics\<close>

text \<open>
  C4: no operation panics. On a graph built from the empty one the mutations never do
  (shown above) and the empty graph gives the empty sequence, but \<open>StrongComponents\<close>
  is not total: after \<open>Add(0); Add(1); Remove(0)\<close> the graph has the single node 1,
  the marker slice has one entry, and the call panics at index 1 under every range
  order.
\<close>

theorem StrongComponents_panics_after_Remove_0:
  assumes "run_ops New [AddOp 0, AddOp 1, RemoveOp 0] = Inr g" and "keys_order (out g) ks"
  shows "snd (StrongComponents ks fo bo g) = Inl IndexOutOfRange"
proof -
  from assms(1)[unfolded run_only1] have g: "g = only1" by simp
  have "dom (out g) = {1}" by (auto simp: g only1_def)
  then have "1 \<in> dom (out g)" "int (card (dom (out g))) \<le> 1" by simp_all
  with assms(2) show ?thesis by (intro StrongComponents_panics[of g ks 1]) simp_all
qed

theorem StrongComponents_panics_after_Remove_0_witness:
  "run_ops New [AddOp 0, AddOp 1, RemoveOp 0] = Inr only1 \<and> keys_order (out only1) [1] \<and>
   snd (StrongComponents [1] (order_of []) (order_of []) only1) = Inl IndexOutOfRange"
proof -
  have k: "keys_order (out only1) [1]" by (auto simp: keys_order_def only1_def)
  from StrongComponents_panics_after_Remove_0[OF run_only1 k] run_only1 k
  show ?thesis by simp
qed

section \<open>Remove\<close>

text \<open>
  C5: after \<open>Remove(n)\<close> the node \<open>n\<close> has an entry in neither mapping. The code deletes
  the entry of \<open>out\<close> only: after \<open>Add(1); Remove(1)\<close> node 1 is gone from \<open>out\<close> and
  still has its entry in \<open>in\<close>.
\<close>

theorem Remove_keeps_in_entry:
  "out (Remove (Add New 1) 1) 1 = None \<and> in' (Remove (Add New 1) 1) 1 = Some {}"
  by (simp add: graph_defs)

section \<open>The mirror invariant\<close>

text \<open>
  C6: in every graph built from the empty one, \<open>dst\<close> is in \<open>out[src]\<close> if and only if
  \<open>src\<close> is in \<open>in[dst]\<close>. The code breaks this: \<open>Remove(2)\<close> leaves 2 in \<open>out[1]\<close>, and
  the \<open>Add(2)\<close> that follows starts \<open>in[2]\<close> afresh, so after
  \<open>Link(1,2); Remove(2); Add(2)\<close> node 2 is in \<open>out[1]\<close> and node 1 is not in \<open>in[2]\<close>.
\<close>

theorem mirror_broken_after_Remove_Add:
  "run_ops New [LinkOp 1 2, RemoveOp 2, AddOp 2] = Inr readded2 \<and>
   2 \<in> neighbours (out readded2) 1 \<and> 1 \<notin> neighbours (in' readded2) 2 \<and>
   \<not> mirror readded2"
proof -
  have e: "2 \<in> neighbours (out readded2) 1" "1 \<notin> neighbours (in' readded2) 2"
    by (simp_all add: readded2_def neighbours_def)
  then have "\<not> mirror readded2" unfolding mirror_def by blast
  with e run_readded2 show ?thesis by simp
qed

section \<open>The scenarios\<close>

text \<open>
  C7: after \<open>Link(1,2); Link(2,1); Link(2,3); Remove(2)\<close> the components are the two
  singletons of 1 and 3, with no edge left between them. In the code the graph after
  these calls has the nodes 1 and 3, so the marker slice has two entries and the call
  panics at index 3 (or before) under every range order; and the edge from 1 to the
  removed node 2 is still in both mappings.
\<close>

theorem removal_scenario_panics:
  assumes "run_ops New [LinkOp 1 2, LinkOp 2 1, LinkOp 2 3, RemoveOp 2] = Inr g"
    and "keys_order (out g) ks"
  shows "snd (StrongComponents ks fo bo g) = Inl IndexOutOfRange \<and>
         2 \<in> neighbours (out g) 1 \<and> 1 \<in> neighbours (in' g) 2"
proof -
  from assms(1)[unfolded run_removed2] have g: "g = removed2" by simp
  have "dom (out g) = {1, 3}" by (auto simp: g removed2_def)
  then have "3 \<in> dom (out g)" "int (card (dom (out g))) \<le> 3" by simp_all
  with assms(2) have "snd (StrongComponents ks fo bo g) = Inl IndexOutOfRange"
    by (intro StrongComponents_panics[of g ks 3]) simp_all
  then show ?thesis by (simp add: g removed2_def neighbours_def)
qed

theorem removal_scenario_panics_witness:
  "run_ops New [LinkOp 1 2, LinkOp 2 1, LinkOp 2 3, RemoveOp 2] = Inr removed2 \<and>
   keys_order (out removed2) [1, 3] \<and>
   snd (StrongComponents [1, 3] (order_of [(1, [2])]) (order_of [(2, [1])]) removed2) =
     Inl IndexOutOfRange \<and>
   2 \<in> neighbours (out removed2) 1"
proof -
  have k: "keys_order (out removed2) [1, 3]" by (auto simp: keys_order_def removed2_def)
  from removal_scenario_panics[OF run_removed2 k] run_removed2 k
  show ?thesis by simp
qed

text \<open>
  C8: after \<open>Link(1,2); Link(2,3)\<close> the call returns \<open>[[3],[2],[1]]\<close>. In the code the
  graph has the nodes 1, 2 and 3, the marker slice has three entries, and the call
  panics at index 3 under every range order; it returns no components.
\<close>

theorem chain_scenario_panics:
  assumes "run_ops New [LinkOp 1 2, LinkOp 2 3] = Inr g" and "keys_order (out g) ks"
  shows "snd (StrongComponents ks fo bo g) = Inl IndexOutOfRange \<and>
         snd (StrongComponents ks fo bo g) \<noteq> Inr [[3], [2], [1]]"
proof -
  from assms(1)[unfolded run_chain123] have g: "g = chain123" by simp
  have "dom (out g) = {1, 2, 3}" by (auto simp: g chain123_def)
  then have "3 \<in> dom (out g)" "int (card (dom (out g))) \<le> 3" by simp_all
  with assms(2) have "snd (StrongComponents ks fo bo g) = Inl IndexOutOfRange"
    by (intro StrongComponents_panics[of g ks 3]) simp_all
  then show ?thesis by simp
qed

theorem chain_scenario_panics_witness:
  "run_ops New [LinkOp 1 2, LinkOp 2 3] = Inr chain123 \<and>
   keys_order (out chain123) [1, 2, 3] \<and>
   snd (StrongComponents [1, 2, 3] (order_of [(1, [2]), (2, [3])])
     (order_of [(2, [1]), (3, [2])]) chain123) = Inl IndexOutOfRange \<and>
   snd (StrongComponents [1, 2, 3] (order_of [(1, [2]), (2, [3])])
     (order_of [(2, [1]), (3, [2])]) chain123) \<noteq> Inr [[3], [2], [1]]"
proof -
  have k: "keys_order (out chain123) [1, 2, 3]"
    by (auto simp: keys_order_def chain123_def)
  from chain_scenario_panics[OF run_chain123 k] run_chain123 k
  show ?thesis by simp
qed

text \<open>
  On the chain with the node ids 0, 1, 2, built by \<open>Link(0,1); Link(1,2)\<close>, the marker
  slice is long enough and the call returns \<open>[[0],[1],[2]]\<close> under every choice of
  range orders.
\<close>

lemma chain_components:
  assumes "run_ops New [LinkOp 0 1, LinkOp 1 2] = Inr g" and "orders_of g ks fo bo"
  shows "snd (StrongComponents ks fo bo g) = Inr [[0], [1], [2]]"
proof -
  from assms(1)[unfolded run_chain012] have g: "g = chain012" by simp
  from assms(2) have k: "keys_order (out g) ks" and f: "range_order (out g) fo"
    and b: "range_order (in' g) bo"
    by (simp_all add: orders_of_def)
  have fo: "fo 0 = [1]" "fo 1 = [2]" "fo 2 = []"
    using range_order_single[OF f, of 0 1] range_order_single[OF f, of 1 2]
      range_order_empty[OF f, of 2]
    by (simp_all add: g chain012_def)
  have bo: "bo 0 = []" "bo 1 = [0]" "bo 2 = [1]"
    using range_order_empty[OF b, of 0] range_order_single[OF b, of 1 0]
      range_order_single[OF b, of 2 1]
    by (simp_all add: g chain012_def)
  have "dom (out g) = {0, 1, 2}" by (auto simp: g chain012_def)
  from keys_order_three[OF k this]
  have "ks \<in> {[0, 1, 2], [0, 2, 1], [1, 0, 2], [1, 2, 0], [2, 0, 1], [2, 1, 0]}" by simp
  then consider "ks = [0, 1, 2]" | "ks = [0, 2, 1]" | "ks = [1, 0, 2]" | "ks = [1, 2, 0]"
    | "ks = [2, 0, 1]" | "ks = [2, 1, 0]"
    by auto
  then show ?thesis
  proof cases
    case 1
    then show ?thesis by (simp add: g chain012_def traversal_defs fo bo)
  next
    case 2
    then show ?thesis by (simp add: g chain012_def traversal_defs fo bo)
  next
    case 3
    then show ?thesis by (simp add: g chain012_def traversal_defs fo bo)
  next
    case 4
    then show ?thesis by (simp add: g chain012_def traversal_defs fo bo)
  next
    case 5
    then show ?thesis by (simp add: g chain012_def traversal_defs fo bo)
  next
    case 6
    then show ?thesis by (simp add: g chain012_def traversal_defs fo bo)
  qed
qed

lemma chain_components_at_2_0_1:
  "run_ops New [LinkOp 0 1, LinkOp 1 2] = Inr chain012 \<and>
   orders_of chain012 [2, 0, 1] (order_of [(0, [1]), (1, [2])])
     (order_of [(1, [0]), (2, [1])]) \<and>
   snd (StrongComponents [2, 0, 1] (order_of [(0, [1]), (1, [2])])
     (order_of [(1, [0]), (2, [1])]) chain012) = Inr [[0], [1], [2]]"
proof -
  have o: "orders_of chain012 [2, 0, 1] (order_of [(0, [1]), (1, [2])])
     (order_of [(1, [0]), (2, [1])])"
    by (intro orders_ofI)
      (auto simp: keys_order_def range_order_def order_of_def chain012_def split: if_splits)
  from chain_components[OF run_chain012 o] o run_chain012 show ?thesis by simp
qed

text \<open>
  C9: after \<open>Link(1,2); Link(2,1); Unlink(2,1)\<close> the call returns \<open>[1]\<close> then \<open>[2]\<close>.
  In the code the graph has the nodes 1 and 2, the marker slice has two entries, and the
  call panics at index 2 under every range order.
\<close>

theorem unlink_scenario_panics:
  assumes "run_ops New [LinkOp 1 2, LinkOp 2 1, UnlinkOp 2 1] = Inr g"
    and "keys_order (out g) ks"
  shows "snd (StrongComponents ks fo bo g) = Inl IndexOutOfRange"
proof -
  from assms(1)[unfolded run_unlinked] have g: "g = edge12" by simp
  have "dom (out g) = {1, 2}" by (auto simp: g edge12_def)
  then have "2 \<in> dom (out g)" "int (card (dom (out g))) \<le> 2" by simp_all
  with assms(2) show ?thesis by (intro StrongComponents_panics[of g ks 2]) simp_all
qed

theorem unlink_scenario_panics_witness:
  "run_ops New [LinkOp 1 2, LinkOp 2 1, UnlinkOp 2 1] = Inr edge12 \<and>
   keys_order (out edge12) [2, 1] \<and>
   snd (StrongComponents [2, 1] (order_of [(1, [2])]) (order_of [(2, [1])]) edge12) =
     Inl IndexOutOfRange"
proof -
  have k: "keys_order (out edge12) [2, 1]" by (auto simp: keys_order_def edge12_def)
  from unlink_scenario_panics[OF run_unlinked k] run_unlinked k
  show ?thesis by simp
qed

section \<open>Frame: the graph after StrongComponents\<close>

text \<open>
  C10: \<open>StrongComponents\<close> never modifies the graph. Whatever orders the runtime
  picks, and whether the call returns or panics, the \<open>out\<close> and \<open>in\<close> mappings after
  the call are the ones before it: every step of the traversal writes only the order
  list and the marker slice of its \<open>dfser\<close>.
\<close>

theorem StrongComponents_leaves_graph: "fst (StrongComponents ks fo bo g) = g"
proof -
  define d where "d = \<lparr>graph = out g, order = [], flip = replicate (length ks) False\<rparr>"
  show ?thesis
  proof (cases "pass1 fo d ks")
    case (Inl a)
    obtain e d' where a: "a = (e, d')" by (cases a)
    from Inl a have "graph d' = graph d"
      using dfs1_frame_Inl(2)[of fo d ks e d'] by (simp add: pass1_eq_dfs1_loop)
    with Inl a show ?thesis
      by (simp add: StrongComponents_def d_def[symmetric]) (simp add: d_def)
  next
    case (Inr d1)
    then have g1: "graph d1 = out g"
      using dfs1_frame_Inr(2)[of fo d ks d1] by (simp add: pass1_eq_dfs1_loop d_def)
    define d2 where "d2 = d1\<lparr>order := [], graph := in' g\<rparr>"
    show ?thesis
    proof (cases "pass2 bo d2 (rev (order d1)) []")
      case (Inl a)
      obtain e d' where a: "a = (e, d')" by (cases a)
      from Inl a have "graph d' = in' g"
        using pass2_frame_Inl[of bo d2 "rev (order d1)" "[]" e d'] by (simp add: d2_def)
      with Inl a Inr g1 show ?thesis
        by (simp add: StrongComponents_def d_def[symmetric] d2_def[symmetric])
    next
      case (Inr b)
      obtain d3 cs where b: "b = (d3, cs)" by (cases b)
      from Inr b have "graph d3 = in' g"
        using pass2_frame_Inr[of bo d2 "rev (order d1)" "[]" d3 cs] by (simp add: d2_def)
      with Inr b \<open>pass1 fo d ks = Inr d1\<close> g1 show ?thesis
        by (simp add: StrongComponents_def d_def[symmetric] d2_def[symmetric])
    qed
  qed
qed

end
